theory Spec2Isabelle
  imports Main "HOL-Library.Char_ord" "HOL-Library.List_Lexorder"
begin

section \<open>Concurrency Governor: the Semaphore class of inspector.js\<close>

text \<open>
  The class keeps a capacity \<open>max\<close>, a counter \<open>current\<close> and a queue of the
  resolve callbacks of blocked callers. A blocked caller is identified by a natural number.
\<close>

record semaphore =
  max :: int
  current :: int
  queue :: "nat list"

definition new_semaphore :: "int \<Rightarrow> semaphore" where
  "new_semaphore m = \<lparr>max = m, current = 0, queue = []\<rparr>"

text \<open>
  \<open>acquire\<close>: when \<open>current < max\<close> the counter is incremented and the caller
  goes on (the flag is True); otherwise the caller's resolve callback is pushed on the queue.
\<close>

definition acquire :: "nat \<Rightarrow> semaphore \<Rightarrow> semaphore \<times> bool" where
  "acquire c s =
     (if current s < max s then (s\<lparr>current := current s + 1\<rparr>, True)
      else (s\<lparr>queue := queue s @ [c]\<rparr>, False))"

text \<open>
  \<open>release\<close>: the counter is decremented; when the queue is not empty the counter is
  incremented again, the first callback is shifted off the queue and called.
\<close>

definition release :: "semaphore \<Rightarrow> semaphore \<times> nat option" where
  "release s =
     (let s1 = s\<lparr>current := current s - 1\<rparr> in
      (case queue s1 of
         [] \<Rightarrow> (s1, None)
       | c # cs \<Rightarrow> (s1\<lparr>current := current s1 + 1, queue := cs\<rparr>, Some c)))"

text \<open>
  A run of the Governor is a sequence of calls. The record below adds bookkeeping to the
  semaphore that the class itself does not keep: who holds a slot now, who was ever
  pushed on the queue (in the order of the requests) and who was woken by a release
  (in the order of the grants).
\<close>

datatype gov_op = Acquire nat | Release nat

record governor =
  sem :: semaphore
  holders :: "nat list"
  blocked_log :: "nat list"
  woken_log :: "nat list"

definition new_governor :: "int \<Rightarrow> governor" where
  "new_governor m = \<lparr>sem = new_semaphore m, holders = [], blocked_log = [], woken_log = []\<rparr>"

fun gov_step :: "governor \<Rightarrow> gov_op \<Rightarrow> governor" where
  "gov_step g (Acquire c) =
     (case acquire c (sem g) of
        (s', True) \<Rightarrow> g\<lparr>sem := s', holders := holders g @ [c]\<rparr>
      | (s', False) \<Rightarrow> g\<lparr>sem := s', blocked_log := blocked_log g @ [c]\<rparr>)"
| "gov_step g (Release c) =
     (case release (sem g) of
        (s', None) \<Rightarrow> g\<lparr>sem := s', holders := remove1 c (holders g)\<rparr>
      | (s', Some w) \<Rightarrow>
          g\<lparr>sem := s', holders := remove1 c (holders g) @ [w], woken_log := woken_log g @ [w]\<rparr>)"

definition gov_run :: "governor \<Rightarrow> gov_op list \<Rightarrow> governor" where
  "gov_run g ops = foldl gov_step g ops"

text \<open>A sequence of calls is valid when every release is made by a caller that holds a slot.\<close>

fun valid_ops :: "governor \<Rightarrow> gov_op list \<Rightarrow> bool" where
  "valid_ops g [] = True"
| "valid_ops g (Acquire c # ops) = valid_ops (gov_step g (Acquire c)) ops"
| "valid_ops g (Release c # ops) = (c \<in> set (holders g) \<and> valid_ops (gov_step g (Release c)) ops)"

definition gov_inv :: "governor \<Rightarrow> bool" where
  "gov_inv g \<longleftrightarrow>
     current (sem g) = int (length (holders g)) \<and>
     current (sem g) \<le> max (sem g) \<and>
     (queue (sem g) \<noteq> [] \<longrightarrow> current (sem g) = max (sem g)) \<and>
     blocked_log g = woken_log g @ queue (sem g)"

section \<open>Durable Run Store: storage.js\<close>

text \<open>
  Files hold serialised JSON. The model keeps the parsed value: \<open>Null\<close> for the text
  \<open>null\<close>, a meta object, an array (the question tree), any other object (by its
  serialisation), or the lines of the page log.
\<close>

datatype run_status = Running | Completed | Interrupted

record run_meta =
  topic :: string
  startedAt :: string
  status :: run_status
  pageCount :: nat
  runId :: "string option"
  maxPages :: nat

datatype content =
    Null
  | MetaDoc run_meta
  | ArrayDoc "string list"
  | ObjectDoc string
  | Lines "string list"

type_synonym file_system = "string \<rightharpoonup> content"

text \<open>
  \<open>fs\<close> in storage.js is \<open>require('fs').promises\<close>. The calls of \<open>atomicWrite\<close>
  on it are \<open>mkdir\<close>, \<open>writeFile\<close>, \<open>open\<close>, \<open>fsync\<close>, \<open>rename\<close> and
  \<open>unlink\<close>. Whether the object has a member \<open>fsync\<close> is a fact of the platform, kept as
  a parameter: when it has none, the call \<open>fs.fsync(...)\<close> throws a TypeError after its
  argument \<open>await fs.open(tmpPath, 'r+')\<close> was evaluated. The promise API of Node.js has no
  such member (synchronising is \<open>FileHandle.sync\<close> there), which is \<open>node_platform\<close>.
\<close>

record platform =
  has_fsync :: bool

definition node_platform :: platform where
  "node_platform = \<lparr>has_fsync = False\<rparr>"

text \<open>The step of one \<open>atomicWrite\<close> call at which the file system reports an error, if any.\<close>

datatype fault = NoFault | MkdirFails | WriteFileFails | OpenFails | FsyncFails | RenameFails

definition unlink :: "string \<Rightarrow> file_system \<Rightarrow> file_system" where
  "unlink p d = d(p := None)"

text \<open>
  \<open>atomicWrite pf ft shutdown filePath data d\<close>: the flag \<open>shutdown\<close> is the value of
  the module variable \<open>shutdownRequested\<close> when the call is made. Every error lands in the
  catch block, which unlinks the temp file and returns false; an error of the sync after the
  rename is swallowed.
\<close>

definition atomicWrite ::
  "platform \<Rightarrow> fault \<Rightarrow> bool \<Rightarrow> string \<Rightarrow> content \<Rightarrow> file_system \<Rightarrow> file_system \<times> bool" where
  "atomicWrite pf ft shutdown filePath data d =
     (if shutdown then (d, False)
      else
        let tmpPath = filePath @ ''.tmp'' in
        if ft = MkdirFails then (unlink tmpPath d, False)
        else if ft = WriteFileFails then (unlink tmpPath d, False)
        else
          let d1 = d(tmpPath \<mapsto> data) in
          if ft = OpenFails then (unlink tmpPath d1, False)
          else if has_fsync pf then
            (if ft = FsyncFails then (unlink tmpPath d1, False)
             else if ft = RenameFails then (unlink tmpPath d1, False)
             else ((d1(filePath \<mapsto> data))(tmpPath := None), True))
          else (unlink tmpPath d1, False))"

text \<open>
  A write task of the queue: the serialised page object, or the serialised synthesis object.
\<close>

datatype task = PageTask string | FinalTask string

text \<open>
  Where the \<open>processQueue\<close> coroutine is suspended: not running; awaiting
  \<open>fs.appendFile\<close> for a page task; awaiting the \<open>atomicWrite\<close> of \<open>final.json\<close>;
  awaiting the \<open>atomicWrite\<close> of \<open>meta.json\<close> that ends a task. An \<open>atomicWrite\<close>
  in progress carries the data it was called with and the value \<open>shutdownRequested\<close> had
  at the call.
\<close>

datatype worker =
    Idle
  | Appending string
  | WritingFinal string bool
  | WritingMeta task run_meta bool

text \<open>Where the \<open>flush\<close> coroutine is suspended: not running, in its wait loop, or reading \<open>final.json\<close>.\<close>

datatype flusher = NotFlushing | Draining | ReadingFinal

record store =
  currentRunPath :: "string option"
  metaData :: "run_meta option"
  isFlushing :: bool
  shutdownRequested :: bool
  writeQueue :: "task list"
  processingQueue :: bool
  worker :: worker
  flusher :: flusher
  disk :: file_system
  resolved :: "(task \<times> bool) list"

definition new_store :: "file_system \<Rightarrow> store" where
  "new_store d =
     \<lparr>currentRunPath = None, metaData = None, isFlushing = False, shutdownRequested = False,
      writeQueue = [], processingQueue = False, worker = Idle, flusher = NotFlushing,
      disk = d, resolved = []\<rparr>"

definition metaPath :: "string \<Rightarrow> string" where
  "metaPath runPath = runPath @ ''/meta.json''"

definition questionsPath :: "string \<Rightarrow> string" where
  "questionsPath runPath = runPath @ ''/questions.json''"

definition pagesPath :: "string \<Rightarrow> string" where
  "pagesPath runPath = runPath @ ''/pages.jsonl''"

definition finalPath :: "string \<Rightarrow> string" where
  "finalPath runPath = runPath @ ''/final.json''"

text \<open>
  \<open>initialize\<close>. The research context gives topic, start time, run id and page limit, each
  possibly missing; \<open>now\<close> is the clock's ISO string and \<open>runDirName\<close> the directory name
  \<open>getRunDirectoryName\<close> derives from topic and clock. The environment says whether a
  \<open>mkdir\<close> or the \<open>writeFile\<close> of the page log fails (the outer catch then disables the
  store) and where each of the up to four \<open>atomicWrite\<close> calls fails.
\<close>

record research_context =
  ctx_topic :: "string option"
  ctx_startTime :: "string option"
  ctx_runId :: "string option"
  ctx_maxPages :: "nat option"

record init_env =
  mkdir_fails :: bool
  pages_write_fails :: bool
  meta_fault :: fault
  questions_fault :: fault
  final_fault :: fault
  meta_again_fault :: fault

text \<open>
  \<open>JSON.parse(await fs.readFile(metaPath)).pageCount || 0\<close>: the page count of a meta
  document, 0 for another object or an array, and an exception (None) when the file is
  missing, holds \<open>null\<close> or does not parse.
\<close>

fun existing_pageCount :: "content option \<Rightarrow> nat option" where
  "existing_pageCount (Some (MetaDoc m)) = Some (pageCount m)"
| "existing_pageCount (Some (ArrayDoc xs)) = Some 0"
| "existing_pageCount (Some (ObjectDoc j)) = Some 0"
| "existing_pageCount (Some Null) = None"
| "existing_pageCount (Some (Lines ls)) = None"
| "existing_pageCount None = None"

definition initial_meta :: "research_context \<Rightarrow> string \<Rightarrow> run_meta" where
  "initial_meta ctx now =
     \<lparr>topic = (case ctx_topic ctx of Some t \<Rightarrow> if t = [] then ''unnamed_research'' else t
                                   | None \<Rightarrow> ''unnamed_research''),
      startedAt = (case ctx_startTime ctx of Some t \<Rightarrow> if t = [] then now else t | None \<Rightarrow> now),
      status = Running,
      pageCount = 0,
      runId = (case ctx_runId ctx of Some r \<Rightarrow> if r = [] then None else Some r | None \<Rightarrow> None),
      maxPages = (case ctx_maxPages ctx of Some n \<Rightarrow> if n = 0 then 200 else n | None \<Rightarrow> 200)\<rparr>"

text \<open>\<open>try { await fs.access(p) } catch { await atomicWrite(p, data) }\<close>\<close>

definition write_if_missing ::
  "platform \<Rightarrow> fault \<Rightarrow> bool \<Rightarrow> string \<Rightarrow> content \<Rightarrow> file_system \<Rightarrow> file_system" where
  "write_if_missing pf ft sd p data d =
     (if d p = None then fst (atomicWrite pf ft sd p data d) else d)"

text \<open>\<open>try { await fs.access(pagesPath) } catch { await fs.writeFile(pagesPath, '') }\<close>, the write succeeding.\<close>

definition create_if_missing :: "string \<Rightarrow> file_system \<Rightarrow> file_system" where
  "create_if_missing p d = (if d p = None then d(p \<mapsto> Lines []) else d)"

text \<open>The last block of \<open>initialize\<close>: the meta is read back and written again.\<close>

definition reread_meta ::
  "platform \<Rightarrow> fault \<Rightarrow> bool \<Rightarrow> string \<Rightarrow> run_meta \<Rightarrow> file_system \<Rightarrow> run_meta \<times> file_system" where
  "reread_meta pf ft sd runPath m d =
     (case existing_pageCount (d (metaPath runPath)) of
        Some n \<Rightarrow>
          (m\<lparr>pageCount := n, status := Running\<rparr>,
           fst (atomicWrite pf ft sd (metaPath runPath) (MetaDoc (m\<lparr>pageCount := n, status := Running\<rparr>)) d))
      | None \<Rightarrow> (m, d))"

definition initialize ::
  "platform \<Rightarrow> init_env \<Rightarrow> research_context \<Rightarrow> string \<Rightarrow> string \<Rightarrow> store \<Rightarrow> store" where
  "initialize pf env ctx now runDirName st =
     (if currentRunPath st \<noteq> None then st
      else if mkdir_fails env then st\<lparr>currentRunPath := None, metaData := None\<rparr>
      else
        let runPath = ''runs/'' @ runDirName;
            sd = shutdownRequested st;
            m = initial_meta ctx now;
            d1 = fst (atomicWrite pf (meta_fault env) sd (metaPath runPath) (MetaDoc m) (disk st));
            d2 = write_if_missing pf (questions_fault env) sd (questionsPath runPath) (ArrayDoc []) d1
        in
          if d2 (pagesPath runPath) = None \<and> pages_write_fails env
          then st\<lparr>currentRunPath := None, metaData := None, disk := d2\<rparr>
          else
            let d3 = create_if_missing (pagesPath runPath) d2;
                d4 = write_if_missing pf (final_fault env) sd (finalPath runPath) Null d3;
                (m', d5) = reread_meta pf (meta_again_fault env) sd runPath m d4
            in st\<lparr>currentRunPath := Some runPath, metaData := Some m', disk := d5\<rparr>)"

text \<open>
  \<open>task.resolve(b)\<close> is logged. \<open>next_task\<close> is the head of the while loop of
  \<open>processQueue\<close>: with a task queued and no shutdown requested the task is shifted off
  and started, otherwise the loop ends and \<open>processingQueue\<close> is reset. A page task starts
  with \<open>fs.appendFile\<close>, a synthesis task with the \<open>atomicWrite\<close> of \<open>final.json\<close>.
\<close>

definition resolve :: "task \<Rightarrow> bool \<Rightarrow> store \<Rightarrow> store" where
  "resolve t b st = st\<lparr>resolved := resolved st @ [(t, b)]\<rparr>"

fun start_task :: "task \<Rightarrow> store \<Rightarrow> store" where
  "start_task (PageTask j) st = st\<lparr>worker := Appending j\<rparr>"
| "start_task (FinalTask j) st = st\<lparr>worker := WritingFinal j (shutdownRequested st)\<rparr>"

definition next_task :: "store \<Rightarrow> store" where
  "next_task st =
     (case writeQueue st of
        t # ts \<Rightarrow>
          if shutdownRequested st then st\<lparr>processingQueue := False, worker := Idle\<rparr>
          else start_task t (st\<lparr>writeQueue := ts\<rparr>)
      | [] \<Rightarrow> st\<lparr>processingQueue := False, worker := Idle\<rparr>)"

definition processQueue :: "store \<Rightarrow> store" where
  "processQueue st =
     (if processingQueue st \<or> writeQueue st = [] \<or> shutdownRequested st then st
      else next_task (st\<lparr>processingQueue := True\<rparr>))"

text \<open>
  \<open>savePageResult\<close> and \<open>saveSynthesis\<close>: the argument is None when it is not an object
  (the call then returns false and nothing is queued), else the object's serialisation.
\<close>

definition savePageResult :: "string option \<Rightarrow> store \<Rightarrow> store" where
  "savePageResult pageObject st =
     (case pageObject of
        None \<Rightarrow> st
      | Some j \<Rightarrow>
          if currentRunPath st = None then st
          else if shutdownRequested st then st
          else processQueue (st\<lparr>writeQueue := writeQueue st @ [PageTask j]\<rparr>))"

definition saveSynthesis :: "string option \<Rightarrow> store \<Rightarrow> store" where
  "saveSynthesis finalObject st =
     (case finalObject of
        None \<Rightarrow> st
      | Some j \<Rightarrow>
          if currentRunPath st = None then st
          else if shutdownRequested st then st
          else processQueue (st\<lparr>writeQueue := writeQueue st @ [FinalTask j]\<rparr>))"

text \<open>\<open>fs.appendFile(pagesPath, line)\<close>: the file is created when it is missing.\<close>

definition appendFile :: "string \<Rightarrow> string \<Rightarrow> file_system \<Rightarrow> file_system" where
  "appendFile p line d =
     (case d p of
        Some (Lines ls) \<Rightarrow> d(p \<mapsto> Lines (ls @ [line]))
      | _ \<Rightarrow> d(p \<mapsto> Lines [line]))"

text \<open>
  The continuation of \<open>processQueue\<close> after \<open>fs.appendFile\<close> settled (\<open>ok\<close>: it did
  not throw): the in-memory page count is incremented and the \<open>atomicWrite\<close> of a copy of
  the meta is called; an exception resolves the task with false. Without a run path
  \<open>path.join\<close> throws.
\<close>

definition append_done :: "bool \<Rightarrow> store \<Rightarrow> store" where
  "append_done ok st =
     (case worker st of
        Appending j \<Rightarrow>
          (case currentRunPath st of
             None \<Rightarrow> next_task (resolve (PageTask j) False st)
           | Some runPath \<Rightarrow>
               if \<not> ok then next_task (resolve (PageTask j) False st)
               else
                 let st1 = st\<lparr>disk := appendFile (pagesPath runPath) j (disk st)\<rparr> in
                 (case metaData st1 of
                    Some m \<Rightarrow>
                      let m' = m\<lparr>pageCount := pageCount m + 1\<rparr> in
                      st1\<lparr>metaData := Some m',
                          worker := WritingMeta (PageTask j) m' (shutdownRequested st1)\<rparr>
                  | None \<Rightarrow> next_task (resolve (PageTask j) True st1)))
      | _ \<Rightarrow> st)"

text \<open>
  The continuation after an \<open>atomicWrite\<close> settled, \<open>ft\<close> saying where that write met an
  error, if anywhere. Its boolean result is not looked at. After \<open>final.json\<close> the
  in-memory status is set to completed and the meta is written; after the meta the task is
  resolved with true and the loop goes on.
\<close>

definition write_done :: "platform \<Rightarrow> fault \<Rightarrow> store \<Rightarrow> store" where
  "write_done pf ft st =
     (case worker st of
        WritingFinal j sd \<Rightarrow>
          (case currentRunPath st of
             None \<Rightarrow> next_task (resolve (FinalTask j) False st)
           | Some runPath \<Rightarrow>
               let st1 = st\<lparr>disk := fst (atomicWrite pf ft sd (finalPath runPath) (ObjectDoc j) (disk st))\<rparr> in
               (case metaData st1 of
                  Some m \<Rightarrow>
                    let m' = m\<lparr>status := Completed\<rparr> in
                    st1\<lparr>metaData := Some m',
                        worker := WritingMeta (FinalTask j) m' (shutdownRequested st1)\<rparr>
                | None \<Rightarrow> next_task (resolve (FinalTask j) True st1)))
      | WritingMeta t m sd \<Rightarrow>
          (case currentRunPath st of
             None \<Rightarrow> next_task (resolve t False st)
           | Some runPath \<Rightarrow>
               next_task (resolve t True
                 (st\<lparr>disk := fst (atomicWrite pf ft sd (metaPath runPath) (MetaDoc m) (disk st))\<rparr>)))
      | _ \<Rightarrow> st)"

text \<open>
  \<open>flush\<close>. The call sets \<open>isFlushing\<close> and \<open>shutdownRequested\<close>, and waits in a
  loop of timers while the queue is not empty. With the queue empty and a run initialised
  it reads \<open>final.json\<close>; when that holds no object and the in-memory status is running,
  the status is set to interrupted and the \<open>atomicWrite\<close> of the meta is called.
\<close>

definition flush_after_drain :: "store \<Rightarrow> store" where
  "flush_after_drain st =
     (if currentRunPath st \<noteq> None \<and> metaData st \<noteq> None then st\<lparr>flusher := ReadingFinal\<rparr>
      else st\<lparr>isFlushing := False, flusher := NotFlushing\<rparr>)"

definition flush :: "store \<Rightarrow> store" where
  "flush st =
     (if isFlushing st then st
      else
        let st1 = st\<lparr>isFlushing := True, shutdownRequested := True\<rparr> in
        if writeQueue st1 \<noteq> [] then st1\<lparr>flusher := Draining\<rparr>
        else flush_after_drain st1)"

definition flush_poll :: "store \<Rightarrow> store" where
  "flush_poll st =
     (if flusher st = Draining then
        (if writeQueue st \<noteq> [] then st else flush_after_drain st)
      else st)"

fun hasFinal :: "content option \<Rightarrow> bool" where
  "hasFinal (Some (ObjectDoc j)) = True"
| "hasFinal (Some (MetaDoc m)) = True"
| "hasFinal (Some (ArrayDoc xs)) = True"
| "hasFinal (Some Null) = False"
| "hasFinal (Some (Lines ls)) = False"
| "hasFinal None = False"

definition flush_read_done :: "platform \<Rightarrow> fault \<Rightarrow> store \<Rightarrow> store" where
  "flush_read_done pf ft st =
     (if flusher st = ReadingFinal then
        (case (currentRunPath st, metaData st) of
           (Some runPath, Some m) \<Rightarrow>
             if \<not> hasFinal (disk st (finalPath runPath)) \<and> status m = Running then
               let m' = m\<lparr>status := Interrupted\<rparr> in
               st\<lparr>metaData := Some m',
                  disk := fst (atomicWrite pf ft (shutdownRequested st) (metaPath runPath) (MetaDoc m') (disk st)),
                  isFlushing := False, flusher := NotFlushing\<rparr>
             else st\<lparr>isFlushing := False, flusher := NotFlushing\<rparr>
         | _ \<Rightarrow> st\<lparr>isFlushing := False, flusher := NotFlushing\<rparr>)
      else st)"

text \<open>
  What can happen to an initialised store: a call of one of its functions, or the
  settling of an operation a coroutine awaits. An event that is not possible in a state
  leaves it as it is.
\<close>

datatype store_event =
    SavePageResult "string option"
  | SaveSynthesis "string option"
  | Flush
  | AppendDone bool
  | WriteDone fault
  | FlushPoll
  | FlushReadDone fault

fun store_step :: "platform \<Rightarrow> store \<Rightarrow> store_event \<Rightarrow> store" where
  "store_step pf st (SavePageResult p) = savePageResult p st"
| "store_step pf st (SaveSynthesis f) = saveSynthesis f st"
| "store_step pf st Flush = flush st"
| "store_step pf st (AppendDone ok) = append_done ok st"
| "store_step pf st (WriteDone ft) = write_done pf ft st"
| "store_step pf st FlushPoll = flush_poll st"
| "store_step pf st (FlushReadDone ft) = flush_read_done pf ft st"

definition store_run :: "platform \<Rightarrow> store \<Rightarrow> store_event list \<Rightarrow> store" where
  "store_run pf st evs = foldl (store_step pf) st evs"

text \<open>The status of the meta on disk and in memory, and whether \<open>final.json\<close> holds an object.\<close>

definition disk_meta :: "store \<Rightarrow> run_meta option" where
  "disk_meta st =
     (case currentRunPath st of
        None \<Rightarrow> None
      | Some runPath \<Rightarrow> (case disk st (metaPath runPath) of Some (MetaDoc m) \<Rightarrow> Some m | _ \<Rightarrow> None))"

definition final_non_null :: "store \<Rightarrow> bool" where
  "final_non_null st =
     (case currentRunPath st of
        None \<Rightarrow> False
      | Some runPath \<Rightarrow> hasFinal (disk st (finalPath runPath)))"

text \<open>A run on an empty disk, initialised without any file system error.\<close>

definition no_init_faults :: init_env where
  "no_init_faults =
     \<lparr>mkdir_fails = False, pages_write_fails = False, meta_fault = NoFault,
      questions_fault = NoFault, final_fault = NoFault, meta_again_fault = NoFault\<rparr>"

definition example_context :: research_context where
  "example_context =
     \<lparr>ctx_topic = Some ''solar'', ctx_startTime = Some ''2026-01-01T00:00:00.000Z'',
      ctx_runId = Some ''1'', ctx_maxPages = Some 200\<rparr>"

definition fresh_run :: "platform \<Rightarrow> store" where
  "fresh_run pf =
     initialize pf no_init_faults example_context ''2026-01-01T00:00:00.000Z''
       ''solar_2026-01-01_00-00-00Z'' (new_store Map.empty)"

definition one_page_then_flush :: "store_event list" where
  "one_page_then_flush =
     [SavePageResult (Some ''{page 1}''), AppendDone True, WriteDone NoFault, Flush, FlushReadDone NoFault]"

definition two_pages_then_flush :: "store_event list" where
  "two_pages_then_flush =
     [SavePageResult (Some ''{page 1}''), SavePageResult (Some ''{page 2}''), Flush]"

definition one_synthesis :: "store_event list" where
  "one_synthesis = [SaveSynthesis (Some ''{synthesis}''), WriteDone NoFault, WriteDone NoFault]"

text \<open>Invariants of the store used below.\<close>

definition no_interrupted_meta :: "file_system \<Rightarrow> bool" where
  "no_interrupted_meta d \<longleftrightarrow> (\<forall>p m. d p = Some (MetaDoc m) \<longrightarrow> status m \<noteq> Interrupted)"

definition store_inv :: "store \<Rightarrow> bool" where
  "store_inv st \<longleftrightarrow>
     no_interrupted_meta (disk st) \<and>
     (\<not> shutdownRequested st \<longrightarrow> (\<forall>m. metaData st = Some m \<longrightarrow> status m \<noteq> Interrupted)) \<and>
     (\<forall>t m sd. worker st = WritingMeta t m sd \<longrightarrow> \<not> sd \<longrightarrow> status m \<noteq> Interrupted) \<and>
     (flusher st \<noteq> NotFlushing \<longrightarrow> shutdownRequested st)"

definition stuck :: "task list \<Rightarrow> store \<Rightarrow> bool" where
  "stuck q st \<longleftrightarrow>
     shutdownRequested st \<and> isFlushing st \<and> flusher st = Draining \<and> writeQueue st = q \<and> q \<noteq> []"

section \<open>Fetcher: fetchWithTimeout of inspector.js\<close>

definition MAX_TEXT_LENGTH :: nat where
  "MAX_TEXT_LENGTH = 50000"

text \<open>\<open>s.startsWith(p)\<close> and \<open>s.includes(p)\<close> of JavaScript strings.\<close>

fun startsWith :: "string \<Rightarrow> string \<Rightarrow> bool" where
  "startsWith s [] = True"
| "startsWith [] (p # ps) = False"
| "startsWith (c # cs) (p # ps) = (c = p \<and> startsWith cs ps)"

fun str_includes :: "string \<Rightarrow> string \<Rightarrow> bool" where
  "str_includes [] p = (p = [])"
| "str_includes (c # cs) p = (if startsWith (c # cs) p then True else str_includes cs p)"

text \<open>
  What one GET request meets. Before a response: an error event of the request, the
  timer, or the abort signal. Otherwise a response with status code, \<open>Location\<close> and
  \<open>Content-Type\<close> headers, followed by the events of its body up to the end event:
  data chunks, and possibly an error of the stream, the abort signal or the timer.
\<close>

datatype body_event = Chunk string | StreamError | AbortFired | TimerFired

record response =
  statusCode :: int
  location :: "string option"
  contentType :: "string option"
  body :: "body_event list"

datatype outcome = RequestError | TimerBeforeResponse | AbortBeforeResponse | Response response

text \<open>
  The environment of a fetch: which URL strings \<open>new URL\<close> and \<open>protocol.get\<close> accept,
  what a request to a URL meets, and \<open>new URL(location, url).toString()\<close> (None when it
  throws).
\<close>

record web =
  accepts :: "string \<Rightarrow> bool"
  respond :: "string \<Rightarrow> outcome"
  resolve_location :: "string \<Rightarrow> string \<Rightarrow> string option"

datatype fetch_error =
    Aborted
  | Timeout
  | HttpStatus int
  | NotHtml
  | ResponseTooLarge
  | NetworkError
  | InvalidUrl

text \<open>
  The handlers of the response stream: a chunk is appended to \<open>data\<close> and the promise is
  rejected once \<open>data.length > MAX_TEXT_LENGTH * 2\<close>; the end event resolves with the data.
\<close>

fun read_body :: "body_event list \<Rightarrow> string \<Rightarrow> fetch_error + string" where
  "read_body [] data = Inr data"
| "read_body (Chunk c # es) data =
     (if length (data @ c) > MAX_TEXT_LENGTH * 2 then Inl ResponseTooLarge
      else read_body es (data @ c))"
| "read_body (StreamError # es) data = Inl NetworkError"
| "read_body (AbortFired # es) data = Inl Aborted"
| "read_body (TimerFired # es) data = Inl Timeout"

text \<open>\<open>res.statusCode >= 300 && res.statusCode < 400 && res.headers.location\<close>\<close>

definition is_redirect :: "response \<Rightarrow> bool" where
  "is_redirect r \<longleftrightarrow>
     300 \<le> statusCode r \<and> statusCode r < 400 \<and>
     (case location r of None \<Rightarrow> False | Some l \<Rightarrow> l \<noteq> [])"

text \<open>The response callback for a response that is not followed as a redirect.\<close>

definition handle_response :: "response \<Rightarrow> fetch_error + string" where
  "handle_response r =
     (if statusCode r \<noteq> 200 then Inl (HttpStatus (statusCode r))
      else if \<not> str_includes (case contentType r of None \<Rightarrow> [] | Some ct \<Rightarrow> ct) ''text/html''
      then Inl NotHtml
      else read_body (body r) [])"

text \<open>
  \<open>fetchWithTimeout\<close>. The result is None when the promise never settles: a chain of
  redirects that does not end, or a \<open>Location\<close> that \<open>new URL\<close> rejects inside the
  response callback. The flag \<open>aborted\<close> is \<open>abortSignal.aborted\<close> at the call.
\<close>

partial_function (option) fetchWithTimeout ::
  "web \<Rightarrow> string \<Rightarrow> bool \<Rightarrow> (fetch_error + string) option" where
  "fetchWithTimeout w url aborted =
     (if aborted then Some (Inl Aborted)
      else if \<not> accepts w url then Some (Inl InvalidUrl)
      else
        (case respond w url of
           RequestError \<Rightarrow> Some (Inl NetworkError)
         | TimerBeforeResponse \<Rightarrow> Some (Inl Timeout)
         | AbortBeforeResponse \<Rightarrow> Some (Inl Aborted)
         | Response r \<Rightarrow>
             if is_redirect r then
               (case resolve_location w (case location r of None \<Rightarrow> [] | Some l \<Rightarrow> l) url of
                  None \<Rightarrow> None
                | Some redirectUrl \<Rightarrow> fetchWithTimeout w redirectUrl False)
             else Some (handle_response r)))"

text \<open>
  \<open>final_response w url r\<close>: following redirects from \<open>url\<close>, the request chain ends
  with the response \<open>r\<close>, which is not a redirect.
\<close>

inductive final_response :: "web \<Rightarrow> string \<Rightarrow> response \<Rightarrow> bool" where
  here: "accepts w url \<Longrightarrow> respond w url = Response r \<Longrightarrow> \<not> is_redirect r
         \<Longrightarrow> final_response w url r"
| hop: "accepts w url \<Longrightarrow> respond w url = Response r' \<Longrightarrow> is_redirect r'
        \<Longrightarrow> location r' = Some l \<Longrightarrow> resolve_location w l url = Some url'
        \<Longrightarrow> final_response w url' r \<Longrightarrow> final_response w url r"

text \<open>The data chunks of a body, and a body that consists of data chunks only.\<close>

fun chunk_text :: "body_event \<Rightarrow> string" where
  "chunk_text (Chunk c) = c"
| "chunk_text e = []"

fun is_chunk :: "body_event \<Rightarrow> bool" where
  "is_chunk (Chunk c) = True"
| "is_chunk e = False"

text \<open>A web with one page that answers 204 with an HTML content type, and one behind a redirect.\<close>

definition example_response :: "int \<Rightarrow> response" where
  "example_response code =
     \<lparr>statusCode = code, location = None, contentType = Some ''text/html; charset=utf-8'',
      body = [Chunk ''<html>'', Chunk ''</html>'']\<rparr>"

definition example_web :: "int \<Rightarrow> web" where
  "example_web code =
     \<lparr>accepts = (\<lambda>u. True),
      respond = (\<lambda>u. if u = ''http://example.com/old''
                      then Response \<lparr>statusCode = 301, location = Some ''/new'', contentType = None, body = []\<rparr>
                      else Response (example_response code)),
      resolve_location = (\<lambda>l u. Some (''http://example.com'' @ l))\<rparr>"

section \<open>URL Normalizer: normalizeUrl of inspector.js\<close>

text \<open>
  \<open>normalizeUrl\<close> rests on the platform's \<open>URL\<close> and \<open>URLSearchParams\<close> classes.
  The model covers two kinds of strings and says of every other string that it does not
  cover it. A string without a colon has no scheme, and \<open>new URL\<close> throws on it. A plain
  URL is one that parsing leaves as it is but for its structure: scheme \<open>http\<close> or
  \<open>https\<close> in lower case, a host of non-empty labels of lower-case letters, digits and
  hyphens (none starting with \<open>xn--\<close>, the last one of letters only), no user info and
  no port, a path of letters, digits and \<open>/ - _ . ~\<close> without the segments \<open>.\<close> and
  \<open>..\<close>, a query of names and values of letters, digits and \<open>* - . _\<close> with at most
  one \<open>=\<close> in each \<open>&\<close>-separated piece, and any fragment. On these the platform
  neither re-encodes nor rewrites a character.
\<close>

definition is_lower :: "char \<Rightarrow> bool" where
  "is_lower c \<longleftrightarrow> CHR ''a'' \<le> c \<and> c \<le> CHR ''z''"


definition is_digit :: "char \<Rightarrow> bool" where
  "is_digit c \<longleftrightarrow> CHR ''0'' \<le> c \<and> c \<le> CHR ''9''"



text \<open>\<open>s.split(c)\<close> for a separator of one character.\<close>

fun split_on :: "char \<Rightarrow> string \<Rightarrow> string list" where
  "split_on c [] = [[]]"
| "split_on c (x # xs) =
     (if x = c then [] # split_on c xs
      else (case split_on c xs of y # ys \<Rightarrow> (x # y) # ys | [] \<Rightarrow> [[x]]))"

definition host_char :: "char \<Rightarrow> bool" where
  "host_char c \<longleftrightarrow> is_lower c \<or> is_digit c \<or> c = CHR ''-'' \<or> c = CHR ''.''"

definition host_ok :: "string \<Rightarrow> bool" where
  "host_ok h \<longleftrightarrow>
     list_all host_char h \<and>
     list_all (\<lambda>l. l \<noteq> [] \<and> \<not> startsWith l ''xn--'') (split_on CHR ''.'' h) \<and>
     list_all is_lower (last (split_on CHR ''.'' h))"






text \<open>
  A parsed URL. The query and the fragment are None when the URL has none (an empty
  query after \<open>?\<close> is \<open>Some []\<close>). The path of a parsed URL is never empty.
\<close>

record url =
  scheme :: string
  host :: string
  pathname :: string
  query :: "string option"
  fragment :: "string option"

text \<open>The part of a string before the first \<open>c\<close>, and the part after it, if there is one.\<close>

definition before :: "char \<Rightarrow> string \<Rightarrow> string" where
  "before c s = takeWhile (\<lambda>x. x \<noteq> c) s"

definition after :: "char \<Rightarrow> string \<Rightarrow> string option" where
  "after c s = (case dropWhile (\<lambda>x. x \<noteq> c) s of [] \<Rightarrow> None | x # r \<Rightarrow> Some r)"









text \<open>
  \<open>new URLSearchParams(search)\<close>: a leading \<open>?\<close> is dropped, the rest is split at
  \<open>&\<close>, empty pieces are skipped, and each piece is split at its first \<open>=\<close>.
  \<open>params.toString()\<close> joins \<open>name=value\<close> with \<open>&\<close>.
\<close>

definition parse_pair :: "string \<Rightarrow> string \<times> string" where
  "parse_pair pc =
     (takeWhile (\<lambda>c. c \<noteq> CHR ''='') pc, drop 1 (dropWhile (\<lambda>c. c \<noteq> CHR ''='') pc))"

definition URLSearchParams :: "string \<Rightarrow> (string \<times> string) list" where
  "URLSearchParams search =
     map parse_pair
       (filter (\<lambda>pc. pc \<noteq> [])
          (split_on CHR ''&'' (if search \<noteq> [] \<and> hd search = CHR ''?'' then tl search else search)))"








section \<open>Crawl Orchestrator: inspectQuestion of inspector.js\<close>

definition MAX_CONCURRENT :: int where
  "MAX_CONCURRENT = 3"


definition MAX_EXPANDED_URLS :: nat where
  "MAX_EXPANDED_URLS = 25"

text \<open>The object \<open>inspectPage\<close> returns for a page.\<close>

record page =
  page_url :: string
  title :: string
  extractedText :: string
  links :: "string list"
  timestamp :: string


text \<open>
  What the inspector does to the outside, in order: a call of \<open>inspectPage\<close> (the fetch
  of a URL), a call of \<open>onPageCountUpdate\<close>, and a write to the Run Store.
\<close>

datatype effect = Fetch string | Progress nat | StoreWrite page

text \<open>
  Where a call of \<open>processUrl\<close> is suspended: in the queue of the semaphore; granted a
  slot, with the continuation after \<open>await semaphore.acquire()\<close> still to run; awaiting
  \<open>randomDelay\<close>; awaiting \<open>inspectPage\<close>; awaiting \<open>Promise.all(expandTasks)\<close>;
  returned.
\<close>

datatype stage = Queued | Ready | Delaying | Fetching | WaitChildren | Done

record url_task =
  task_url :: string
  depth :: nat
  parent :: "nat option"
  stage :: stage

text \<open>
  The state of one call of \<open>inspectQuestion\<close>: the variables of its closure, the calls
  of \<open>processUrl\<close> made so far (a call is named by its index), the number of calls of
  \<open>shouldStopFn\<close> so far, the effects so far, and the calls that have called
  \<open>semaphore.release\<close>. The callers in the semaphore's queue are calls of \<open>processUrl\<close>.
\<close>

record session =
  visitedUrls :: "string set"
  semaphore :: semaphore
  session_pageCount :: nat
  aborted :: bool
  tasks :: "url_task list"
  stopCalls :: nat
  effects :: "effect list"
  released :: "nat list"

text \<open>
  What a session is given from outside. The caller's \<open>shouldStopFn\<close> is given by its
  answers: \<open>shouldStopFn env n\<close> is what the call after \<open>n\<close> earlier calls returns.
  Both callbacks of the caller, \<open>shouldStopFn\<close> and \<open>onPageCountUpdate\<close>, are taken to
  return without throwing.
  The function \<open>normalizeUrl\<close>, which rests on the platform's URL class, is the
  parameter \<open>normalize env\<close>: what is proved of a session holds for every function from
  strings to strings in its place.
\<close>

record env =
  shouldStopFn :: "nat \<Rightarrow> bool"
  normalize :: "string \<Rightarrow> string"

text \<open>\<open>shouldAbort\<close>\<close>

definition shouldAbort :: "env \<Rightarrow> session \<Rightarrow> bool \<times> session" where
  "shouldAbort env s =
     (if aborted s then (True, s)
      else if shouldStopFn env (stopCalls s) then (True, s\<lparr>aborted := True, stopCalls := stopCalls s + 1\<rparr>)
      else (False, s\<lparr>stopCalls := stopCalls s + 1\<rparr>))"

definition set_stage :: "nat \<Rightarrow> stage \<Rightarrow> session \<Rightarrow> session" where
  "set_stage tid st s = s\<lparr>tasks := (tasks s)[tid := (tasks s ! tid)\<lparr>stage := st\<rparr>]\<rparr>"

text \<open>
  The call \<open>tid\<close> calls \<open>semaphore.release()\<close>: a caller woken from the queue goes on
  after its \<open>await semaphore.acquire()\<close>.
\<close>

definition release_slot :: "nat \<Rightarrow> session \<Rightarrow> session" where
  "release_slot tid s =
     (case release (semaphore s) of
        (sem', None) \<Rightarrow> s\<lparr>semaphore := sem', released := released s @ [tid]\<rparr>
      | (sem', Some w) \<Rightarrow>
          set_stage w Ready (s\<lparr>semaphore := sem', released := released s @ [tid]\<rparr>))"

text \<open>
  The start of a call \<open>processUrl(url, depth)\<close>, up to its first await: the abort check,
  the lookup of the normalized URL in \<open>visitedUrls\<close>, the claim, and
  \<open>semaphore.acquire()\<close>.
\<close>

definition processUrl :: "env \<Rightarrow> nat option \<Rightarrow> nat \<Rightarrow> session \<Rightarrow> string \<Rightarrow> session" where
  "processUrl env par d s0 url =
     (let tid = length (tasks s0) in
      case shouldAbort env s0 of
        (True, s) \<Rightarrow> s\<lparr>tasks := tasks s @ [\<lparr>task_url = url, depth = d, parent = par, stage = Done\<rparr>]\<rparr>
      | (False, s) \<Rightarrow>
          let normalizedUrl = normalize env url in
          if normalizedUrl \<in> visitedUrls s
          then s\<lparr>tasks := tasks s @ [\<lparr>task_url = url, depth = d, parent = par, stage = Done\<rparr>]\<rparr>
          else
            (case acquire tid (semaphore s) of
               (sem', granted) \<Rightarrow>
                 s\<lparr>visitedUrls := insert normalizedUrl (visitedUrls s),
                    semaphore := sem',
                    tasks := tasks s @ [\<lparr>task_url = url, depth = d, parent = par,
                                          stage = (if granted then Ready else Queued)\<rparr>]\<rparr>))"

text \<open>The loop that selects \<open>expandedUrls\<close> from the links of a page.\<close>

fun select_links :: "env \<Rightarrow> string set \<Rightarrow> string list \<Rightarrow> string list \<Rightarrow> string list" where
  "select_links env visited [] expandedUrls = expandedUrls"
| "select_links env visited (link # rest) expandedUrls =
     (if length expandedUrls \<ge> MAX_EXPANDED_URLS then expandedUrls
      else if normalize env link \<notin> visited then select_links env visited rest (expandedUrls @ [link])
      else select_links env visited rest expandedUrls)"

text \<open>
  The continuations of \<open>processUrl\<close>: after the slot was granted; after the delay; after
  \<open>inspectPage\<close> returned \<open>result\<close>; after all expansion tasks returned. Each ends at
  the next await or with the release of the slot and the return.
\<close>

definition finish :: "nat \<Rightarrow> session \<Rightarrow> session" where
  "finish tid s = set_stage tid Done (release_slot tid s)"

definition after_acquire :: "env \<Rightarrow> nat \<Rightarrow> session \<Rightarrow> session" where
  "after_acquire env tid s0 =
     (case shouldAbort env s0 of
        (True, s) \<Rightarrow> finish tid s
      | (False, s) \<Rightarrow> set_stage tid Delaying s)"

definition after_delay :: "env \<Rightarrow> nat \<Rightarrow> session \<Rightarrow> session" where
  "after_delay env tid s0 =
     (case shouldAbort env s0 of
        (True, s) \<Rightarrow> finish tid s
      | (False, s) \<Rightarrow>
          set_stage tid Fetching (s\<lparr>effects := effects s @ [Fetch (task_url (tasks s ! tid))]\<rparr>))"

definition after_inspect :: "env \<Rightarrow> nat \<Rightarrow> page option \<Rightarrow> session \<Rightarrow> session" where
  "after_inspect env tid result s0 =
     (case result of
        None \<Rightarrow> finish tid s0
      | Some pg \<Rightarrow>
          (case shouldAbort env s0 of
             (True, s) \<Rightarrow> finish tid s
           | (False, s) \<Rightarrow>
               let s1 = s\<lparr>session_pageCount := session_pageCount s + 1,
                          effects := effects s @ [Progress (session_pageCount s + 1)]\<rparr>
               in if depth (tasks s1 ! tid) = 0 \<and> links pg \<noteq> []
                  then set_stage tid WaitChildren
                         (foldl (processUrl env (Some tid) 1) s1
                            (select_links env (visitedUrls s1) (links pg) []))
                  else finish tid s1))"

definition children_done :: "nat \<Rightarrow> session \<Rightarrow> bool" where
  "children_done tid s \<longleftrightarrow> list_all (\<lambda>t. parent t \<noteq> Some tid \<or> stage t = Done) (tasks s)"

text \<open>
  The events of a session: the continuation of a suspended call is run. An event is
  possible only for a call suspended at the matching await.
\<close>

datatype event = Resume nat | DelayElapsed nat | InspectDone nat "page option" | ChildrenDone nat

definition at_stage :: "nat \<Rightarrow> stage \<Rightarrow> session \<Rightarrow> bool" where
  "at_stage tid st s \<longleftrightarrow> tid < length (tasks s) \<and> stage (tasks s ! tid) = st"

fun step :: "env \<Rightarrow> session \<Rightarrow> event \<Rightarrow> session option" where
  "step env s (Resume tid) =
     (if at_stage tid Ready s then Some (after_acquire env tid s) else None)"
| "step env s (DelayElapsed tid) =
     (if at_stage tid Delaying s then Some (after_delay env tid s) else None)"
| "step env s (InspectDone tid result) =
     (if at_stage tid Fetching s then Some (after_inspect env tid result s) else None)"
| "step env s (ChildrenDone tid) =
     (if at_stage tid WaitChildren s \<and> children_done tid s then Some (finish tid s) else None)"

fun run :: "env \<Rightarrow> session \<Rightarrow> event list \<Rightarrow> session option" where
  "run env s [] = Some s"
| "run env s (e # es) = (case step env s e of None \<Rightarrow> None | Some s' \<Rightarrow> run env s' es)"

text \<open>\<open>inspectQuestion\<close> up to its await: the seeds are started at depth 0, in order.\<close>

definition new_session :: session where
  "new_session =
     \<lparr>visitedUrls = {}, semaphore = new_semaphore MAX_CONCURRENT, session_pageCount = 0,
      aborted = False, tasks = [], stopCalls = 0, effects = [], released = []\<rparr>"

definition inspectQuestion :: "env \<Rightarrow> string list \<Rightarrow> session" where
  "inspectQuestion env seedUrls = foldl (processUrl env None 0) new_session seedUrls"

text \<open>The URLs fetched so far, and the calls that hold a slot of the semaphore.\<close>

fun fetched :: "effect list \<Rightarrow> string list" where
  "fetched [] = []"
| "fetched (Fetch u # es) = u # fetched es"
| "fetched (e # es) = fetched es"


definition holds_slot :: "url_task \<Rightarrow> bool" where
  "holds_slot t \<longleftrightarrow> stage t = Ready \<or> stage t = Delaying \<or> stage t = Fetching \<or> stage t = WaitChildren"



definition parse_query :: "string \<Rightarrow> (string \<times> string) list" where
  "parse_query q = map parse_pair (filter (\<lambda>pc. pc \<noteq> []) (split_on CHR ''&'' q))"



text \<open>
  Invariants of a session, used below. \<open>queue_ok\<close>: the queue of the semaphore holds,
  once each, exactly the calls suspended in \<open>acquire\<close>. \<open>slots_ok\<close>: the counter of the
  semaphore is the number of calls between the grant of a slot and its release, and is at
  most the capacity. \<open>family_ok\<close>: a call without a parent has depth 0; a call with a parent
  has depth 1 and its parent has depth 0 and awaits its expansion tasks or has returned; while
  a child has not returned, the parent awaits and has not released its slot.
  \<open>released_ok\<close>: a call that has released its slot has returned. \<open>claims_ok\<close>: the
  URLs fetched so far and the URLs of the calls that claimed a URL and have not fetched yet
  have pairwise different normalized forms, all in \<open>visitedUrls\<close>.
\<close>

definition queue_ok :: "session \<Rightarrow> bool" where
  "queue_ok s \<longleftrightarrow>
     distinct (queue (semaphore s)) \<and> (\<forall>w\<in>set (queue (semaphore s)). at_stage w Queued s) \<and>
     (\<forall>i<length (tasks s). stage (tasks s ! i) = Queued \<longrightarrow> i \<in> set (queue (semaphore s)))"

definition slots_ok :: "session \<Rightarrow> bool" where
  "slots_ok s \<longleftrightarrow>
     semaphore.max (semaphore s) = MAX_CONCURRENT \<and>
     current (semaphore s) = int (length (filter holds_slot (tasks s))) \<and>
     current (semaphore s) \<le> semaphore.max (semaphore s)"

definition family_ok :: "session \<Rightarrow> bool" where
  "family_ok s \<longleftrightarrow>
     (\<forall>c<length (tasks s).
        case parent (tasks s ! c) of
          None \<Rightarrow> depth (tasks s ! c) = 0
        | Some p \<Rightarrow>
            p < length (tasks s) \<and> depth (tasks s ! c) = 1 \<and> depth (tasks s ! p) = 0 \<and>
            (stage (tasks s ! p) = WaitChildren \<or> stage (tasks s ! p) = Done) \<and>
            (stage (tasks s ! c) \<noteq> Done \<longrightarrow>
               stage (tasks s ! p) = WaitChildren \<and> p \<notin> set (released s)))"

definition released_ok :: "session \<Rightarrow> bool" where
  "released_ok s \<longleftrightarrow> (\<forall>t\<in>set (released s). at_stage t Done s)"

definition before_fanout :: "stage \<Rightarrow> bool" where
  "before_fanout st \<longleftrightarrow> st = Queued \<or> st = Ready \<or> st = Delaying \<or> st = Fetching"

definition core_ok :: "session \<Rightarrow> bool" where
  "core_ok s \<longleftrightarrow> queue_ok s \<and> slots_ok s \<and> family_ok s \<and> released_ok s"

definition pending :: "url_task \<Rightarrow> bool" where
  "pending t \<longleftrightarrow> stage t = Queued \<or> stage t = Ready \<or> stage t = Delaying"

definition claimed_urls :: "session \<Rightarrow> string list" where
  "claimed_urls s = fetched (effects s) @ map task_url (filter pending (tasks s))"

definition claims_ok :: "env \<Rightarrow> session \<Rightarrow> bool" where
  "claims_ok env s \<longleftrightarrow>
     distinct (map (normalize env) (claimed_urls s)) \<and>
     normalize env ` set (claimed_urls s) \<subseteq> visitedUrls s"

definition all_ok :: "env \<Rightarrow> session \<Rightarrow> bool" where
  "all_ok env s \<longleftrightarrow> core_ok s \<and> claims_ok env s"

subsection \<open>Example sessions, and notions used in the proofs about sessions\<close>

text \<open>
  An environment for the examples: the caller never asks to stop, and the normalization
  removes one slash at the end of a string, which is what \<open>normalizeUrl\<close> does to the URLs
  of the examples.
\<close>

definition example_env :: env where
  "example_env =
     \<lparr>shouldStopFn = (\<lambda>n. False),
      normalize = (\<lambda>u. if u \<noteq> [] \<and> last u = CHR ''/'' then butlast u else u)\<rparr>"

text \<open>
  A page with a text of 500 characters and the given links.
\<close>

definition example_page :: "string list \<Rightarrow> page" where
  "example_page ls =
     \<lparr>page_url = ''http://a.io/'', title = ''A'', extractedText = replicate 500 CHR ''x'',
      links = ls, timestamp = ''2026-01-01T00:00:00.000Z''\<rparr>"

text \<open>
  One seed: its slot is granted, the delay elapses, and \<open>inspectPage\<close> returns a page with
  two links that differ in the slash at the end.
\<close>

definition one_seed_inspected :: "session option" where
  "one_seed_inspected =
     run example_env (inspectQuestion example_env [''http://a.io/''])
       [Resume 0, DelayElapsed 0, InspectDone 0 (Some (example_page [''http://a.io/b'', ''http://a.io/b/'']))]"

text \<open>
  Two seeds with the same normalized form: the first is granted its slot and fetches.
\<close>

definition two_equal_seeds :: "session option" where
  "two_equal_seeds =
     run example_env (inspectQuestion example_env [''http://a.io/'', ''http://a.io''])
       [Resume 0, DelayElapsed 0]"

text \<open>
  The number of calls of \<open>processUrl\<close> that the call \<open>p\<close> started.
\<close>

definition child_count :: "nat \<Rightarrow> session \<Rightarrow> nat" where
  "child_count p s = length (filter (\<lambda>t. parent t = Some p) (tasks s))"

text \<open>
  Used in the proof of the bound on the depth-1 calls: a depth-1 call counts 1, and a depth-0
  call counts 25 until it has selected its expansion tasks, then 0.
\<close>

definition task_cost :: "url_task \<Rightarrow> nat" where
  "task_cost t = (if depth t = 0 then (if before_fanout (stage t) then MAX_EXPANDED_URLS else 0) else 1)"

definition budget :: "session \<Rightarrow> nat" where
  "budget s = sum_list (map task_cost (tasks s))"






section \<open>The Governor: capacity and order of the grants\<close>

lemma gov_inv_new: "0 \<le> m \<Longrightarrow> gov_inv (new_governor m)"
  by (simp add: gov_inv_def new_governor_def new_semaphore_def)

lemma gov_step_max [simp]: "max (sem (gov_step g op)) = max (sem g)"
  by (cases op) (auto simp: acquire_def release_def Let_def split: list.splits)

lemma gov_inv_acquire: "gov_inv g \<Longrightarrow> gov_inv (gov_step g (Acquire c))"
  by (auto simp: gov_inv_def acquire_def)

lemma length_remove1_mem: "c \<in> set xs \<Longrightarrow> int (length (remove1 c xs)) = int (length xs) - 1"
  by (induction xs) auto

lemma gov_inv_release:
  assumes "gov_inv g" and "c \<in> set (holders g)"
  shows "gov_inv (gov_step g (Release c))"
proof (cases "queue (sem g)")
  case Nil
  with assms show ?thesis
    by (simp add: gov_inv_def release_def Let_def length_remove1_mem)
next
  case (Cons w ws)
  with assms show ?thesis
    by (simp add: gov_inv_def release_def Let_def length_remove1_mem)
qed

lemma gov_inv_run: "gov_inv g \<Longrightarrow> valid_ops g ops \<Longrightarrow> gov_inv (gov_run g ops)"
  unfolding gov_run_def
proof (induction ops arbitrary: g)
  case Nil
  then show ?case by simp
next
  case (Cons op ops)
  show ?case
  proof (cases op)
    case (Acquire c)
    with Cons.prems have "gov_inv (gov_step g op)" and "valid_ops (gov_step g op) ops"
      by (simp_all add: gov_inv_acquire del: gov_step.simps)
    then show ?thesis using Cons.IH by simp
  next
    case (Release c)
    with Cons.prems have "gov_inv (gov_step g op)" and "valid_ops (gov_step g op) ops"
      by (simp_all add: gov_inv_release del: gov_step.simps)
    then show ?thesis using Cons.IH by simp
  qed
qed

lemma release_wakes_head:
  "snd (release s) = (case queue s of [] \<Rightarrow> None | c # cs \<Rightarrow> Some c)"
  by (simp add: release_def Let_def split: list.splits)

text \<open>
  Claim C6. For every valid sequence of acquire and release calls on a Governor of
  capacity \<open>cap\<close>: the number of callers that hold a slot is at most \<open>cap\<close>; the
  callers that were ever blocked, in the order of their requests, are the callers woken so
  far, in the order of their grants, followed by the queue (so blocked callers are granted
  slots first-requested-first-granted); while a caller waits no new caller is let past it;
  and a release wakes the caller at the head of the queue, if any.
\<close>

theorem governor_capacity_fifo:
  assumes "0 \<le> cap" and "valid_ops (new_governor cap) ops"
  shows "int (length (holders (gov_run (new_governor cap) ops))) \<le> cap \<and>
         blocked_log (gov_run (new_governor cap) ops) =
           woken_log (gov_run (new_governor cap) ops) @ queue (sem (gov_run (new_governor cap) ops)) \<and>
         (queue (sem (gov_run (new_governor cap) ops)) \<noteq> [] \<longrightarrow>
            (\<forall>c. \<not> snd (acquire c (sem (gov_run (new_governor cap) ops))))) \<and>
         snd (release (sem (gov_run (new_governor cap) ops))) =
           (case queue (sem (gov_run (new_governor cap) ops)) of [] \<Rightarrow> None | c # cs \<Rightarrow> Some c)"
proof -
  let ?g = "gov_run (new_governor cap) ops"
  have inv: "gov_inv ?g"
    using assms by (simp add: gov_inv_new gov_inv_run)
  have m: "max (sem ?g) = cap"
    unfolding gov_run_def
    by (induction ops rule: rev_induct) (simp_all add: new_governor_def new_semaphore_def del: gov_step.simps)
  from inv m have "int (length (holders ?g)) \<le> cap"
    by (simp add: gov_inv_def)
  moreover from inv have "blocked_log ?g = woken_log ?g @ queue (sem ?g)"
    by (simp add: gov_inv_def)
  moreover from inv have "queue (sem ?g) \<noteq> [] \<longrightarrow> (\<forall>c. \<not> snd (acquire c (sem ?g)))"
    by (auto simp: gov_inv_def acquire_def)
  ultimately show ?thesis
    by (simp add: release_wakes_head)
qed

theorem governor_capacity_fifo_witness:
  "valid_ops (new_governor 1) [Acquire 1, Acquire 2, Acquire 3, Release 1, Release 2] \<and>
   holders (gov_run (new_governor 1) [Acquire 1, Acquire 2, Acquire 3, Release 1, Release 2]) = [3] \<and>
   woken_log (gov_run (new_governor 1) [Acquire 1, Acquire 2, Acquire 3, Release 1, Release 2]) = [2, 3] \<and>
   int (length (holders (gov_run (new_governor 1) [Acquire 1, Acquire 2, Acquire 3, Release 1, Release 2]))) \<le> 1"
proof -
  have v: "valid_ops (new_governor 1) [Acquire 1, Acquire 2, Acquire 3, Release 1, Release 2]"
    by (simp add: new_governor_def new_semaphore_def acquire_def release_def Let_def)
  have "(0::int) \<le> 1" by simp
  from governor_capacity_fifo [OF this v] v show ?thesis
    by (simp add: gov_run_def new_governor_def new_semaphore_def acquire_def release_def Let_def)
qed

section \<open>The atomic write primitive\<close>

lemma atomicWrite_outcome:
  assumes "atomicWrite pf ft sd p data d = (d', ok)"
  shows "(ok \<longrightarrow> d' p = Some data) \<and> (\<not> ok \<longrightarrow> d' p = d p) \<and> (\<not> sd \<longrightarrow> d' (p @ ''.tmp'') = None)"
  using assms by (auto simp: atomicWrite_def unlink_def Let_def split: if_splits)

lemma atomicWrite_shutdown [simp]: "atomicWrite pf ft True p data d = (d, False)"
  by (simp add: atomicWrite_def)

text \<open>
  Claim C2, evaluated on the code. With the promise API of Node.js as \<open>fs\<close>, no call of
  \<open>atomicWrite\<close> reports success, whatever the path, the content and the behaviour of the
  file system, and the target file is left as it was: the call \<open>fs.fsync\<close> throws, the
  catch block unlinks the temp file and returns false, and the rename is never reached.
\<close>

theorem atomicWrite_never_succeeds:
  "\<not> snd (atomicWrite node_platform ft shutdown filePath data d) \<and>
   fst (atomicWrite node_platform ft shutdown filePath data d) filePath = d filePath"
  by (simp add: atomicWrite_def node_platform_def unlink_def Let_def)

theorem atomicWrite_never_succeeds_witness:
  "atomicWrite node_platform NoFault False ''runs/r/meta.json'' Null Map.empty = (Map.empty, False)"
proof -
  from atomicWrite_never_succeeds [of NoFault False "''runs/r/meta.json''" Null Map.empty]
  have "\<not> snd (atomicWrite node_platform NoFault False ''runs/r/meta.json'' Null Map.empty)"
    by simp
  then show ?thesis
    by (simp add: atomicWrite_def node_platform_def unlink_def Let_def)
qed

section \<open>The write queue and flush\<close>

lemma no_interrupted_atomicWrite:
  assumes "no_interrupted_meta d" and "sd \<or> (\<forall>m. data = MetaDoc m \<longrightarrow> status m \<noteq> Interrupted)"
  shows "no_interrupted_meta (fst (atomicWrite pf ft sd p data d))"
  using assms by (auto simp: no_interrupted_meta_def atomicWrite_def unlink_def Let_def)

lemma no_interrupted_appendFile:
  "no_interrupted_meta d \<Longrightarrow> no_interrupted_meta (appendFile p l d)"
  by (auto simp: no_interrupted_meta_def appendFile_def split: option.splits content.splits)

lemma no_interrupted_write_if_missing:
  assumes "no_interrupted_meta d" and "\<forall>m. data = MetaDoc m \<longrightarrow> status m \<noteq> Interrupted"
  shows "no_interrupted_meta (write_if_missing pf ft sd p data d)"
  using assms by (simp add: write_if_missing_def no_interrupted_atomicWrite)

lemma no_interrupted_create_if_missing:
  "no_interrupted_meta d \<Longrightarrow> no_interrupted_meta (create_if_missing p d)"
  by (simp add: no_interrupted_meta_def create_if_missing_def)

lemma reread_meta_ok:
  assumes "no_interrupted_meta d" and "status m = Running" and "reread_meta pf ft sd rp m d = (m', d')"
  shows "no_interrupted_meta d' \<and> status m' = Running"
proof (cases "existing_pageCount (d (metaPath rp))")
  case None
  with assms show ?thesis by (simp add: reread_meta_def)
next
  case (Some n)
  with assms have "d' = fst (atomicWrite pf ft sd (metaPath rp) (MetaDoc (m\<lparr>pageCount := n, status := Running\<rparr>)) d)"
    and "m' = m\<lparr>pageCount := n, status := Running\<rparr>"
    by (auto simp: reread_meta_def)
  with assms(1) show ?thesis
    by (simp add: no_interrupted_atomicWrite)
qed

lemma store_inv_initialize:
  "store_inv (initialize pf env ctx now dir (new_store Map.empty))"
proof -
  let ?st = "new_store Map.empty"
  let ?rp = "''runs/'' @ dir"
  let ?m = "initial_meta ctx now"
  let ?d1 = "fst (atomicWrite pf (meta_fault env) False (metaPath ?rp) (MetaDoc ?m) Map.empty)"
  let ?d2 = "write_if_missing pf (questions_fault env) False (questionsPath ?rp) (ArrayDoc []) ?d1"
  let ?d4 = "write_if_missing pf (final_fault env) False (finalPath ?rp) Null (create_if_missing (pagesPath ?rp) ?d2)"
  have m: "status ?m = Running" by (simp add: initial_meta_def)
  have e: "no_interrupted_meta Map.empty" by (simp add: no_interrupted_meta_def)
  have d1: "no_interrupted_meta ?d1"
    using e m by (simp add: no_interrupted_atomicWrite)
  have d2: "no_interrupted_meta ?d2"
    using d1 by (simp add: no_interrupted_write_if_missing)
  have d4: "no_interrupted_meta ?d4"
    using d2 by (simp add: no_interrupted_write_if_missing no_interrupted_create_if_missing)
  obtain m' d5 where r: "reread_meta pf (meta_again_fault env) False ?rp ?m ?d4 = (m', d5)"
    by (cases "reread_meta pf (meta_again_fault env) False ?rp ?m ?d4")
  from reread_meta_ok [OF d4 m r] have d5: "no_interrupted_meta d5" and m': "status m' = Running"
    by simp_all
  consider (a) "mkdir_fails env"
    | (b) "\<not> mkdir_fails env" "?d2 (pagesPath ?rp) = None \<and> pages_write_fails env"
    | (c) "\<not> mkdir_fails env" "\<not> (?d2 (pagesPath ?rp) = None \<and> pages_write_fails env)"
    by blast
  then show ?thesis
  proof cases
    case a
    then show ?thesis
      using e by (simp add: initialize_def new_store_def store_inv_def)
  next
    case b
    then show ?thesis
      using d2 by (simp add: initialize_def new_store_def store_inv_def Let_def)
  next
    case c
    then have "initialize pf env ctx now dir ?st =
        ?st\<lparr>currentRunPath := Some ?rp, metaData := Some m', disk := d5\<rparr>"
      using r by (simp add: initialize_def new_store_def Let_def)
    then show ?thesis
      using d5 m' by (simp add: new_store_def store_inv_def)
  qed
qed

lemma start_task_frame [simp]:
  "disk (start_task t st) = disk st"
  "metaData (start_task t st) = metaData st"
  "shutdownRequested (start_task t st) = shutdownRequested st"
  "flusher (start_task t st) = flusher st"
  "writeQueue (start_task t st) = writeQueue st"
  "isFlushing (start_task t st) = isFlushing st"
  "currentRunPath (start_task t st) = currentRunPath st"
  "resolved (start_task t st) = resolved st"
  by (cases t; simp)+

lemma start_task_worker:
  "worker (start_task t st) \<noteq> WritingMeta t' m sd"
  by (cases t) simp_all

lemma store_inv_resolve [simp]: "store_inv (resolve t b st) = store_inv st"
  by (simp add: store_inv_def resolve_def)

lemma store_inv_next_task:
  assumes "store_inv st"
  shows "store_inv (next_task st)"
proof (cases "writeQueue st")
  case Nil
  with assms show ?thesis by (simp add: next_task_def store_inv_def)
next
  case (Cons t ts)
  with assms show ?thesis
    by (auto simp: next_task_def store_inv_def start_task_worker)
qed

lemma store_inv_processQueue:
  assumes "store_inv st"
  shows "store_inv (processQueue st)"
proof -
  from assms have "store_inv (st\<lparr>processingQueue := True\<rparr>)"
    by (simp add: store_inv_def)
  then have "store_inv (next_task (st\<lparr>processingQueue := True\<rparr>))"
    by (rule store_inv_next_task)
  with assms show ?thesis
    by (simp add: processQueue_def)
qed

lemma store_inv_enqueue: "store_inv st \<Longrightarrow> store_inv (st\<lparr>writeQueue := q\<rparr>)"
  by (simp add: store_inv_def)

lemma store_inv_savePageResult: "store_inv st \<Longrightarrow> store_inv (savePageResult p st)"
  by (simp add: savePageResult_def store_inv_processQueue store_inv_enqueue split: option.splits)

lemma store_inv_saveSynthesis: "store_inv st \<Longrightarrow> store_inv (saveSynthesis p st)"
  by (simp add: saveSynthesis_def store_inv_processQueue store_inv_enqueue split: option.splits)

lemma store_inv_flush: "store_inv st \<Longrightarrow> store_inv (flush st)"
  by (simp add: flush_def flush_after_drain_def store_inv_def Let_def)

lemma store_inv_flush_poll: "store_inv st \<Longrightarrow> store_inv (flush_poll st)"
  by (simp add: flush_poll_def flush_after_drain_def store_inv_def)

lemma store_inv_flush_read_done:
  assumes "store_inv st"
  shows "store_inv (flush_read_done pf ft st)"
proof (cases "flusher st = ReadingFinal")
  case False
  with assms show ?thesis by (simp add: flush_read_done_def)
next
  case True
  with assms have sd: "shutdownRequested st"
    by (simp add: store_inv_def)
  with assms True show ?thesis
    by (simp add: flush_read_done_def store_inv_def Let_def split: option.splits)
qed

lemma store_inv_append_done:
  assumes "store_inv st"
  shows "store_inv (append_done ok st)"
proof (cases "worker st")
  case (Appending j)
  show ?thesis
  proof (cases "currentRunPath st")
    case None
    with assms Appending show ?thesis
      by (simp add: append_done_def store_inv_next_task)
  next
    case (Some rp)
    let ?st1 = "st\<lparr>disk := appendFile (pagesPath rp) j (disk st)\<rparr>"
    have st1: "store_inv ?st1"
      using assms by (simp add: store_inv_def no_interrupted_appendFile)
    show ?thesis
    proof (cases "metaData st")
      case None
      with assms Appending Some st1 show ?thesis
        by (simp add: append_done_def store_inv_next_task)
    next
      case m: (Some m)
      have "store_inv (?st1\<lparr>metaData := Some (m\<lparr>pageCount := pageCount m + 1\<rparr>),
          worker := WritingMeta (PageTask j) (m\<lparr>pageCount := pageCount m + 1\<rparr>) (shutdownRequested st)\<rparr>)"
        using st1 m by (simp add: store_inv_def)
      with assms Appending Some m show ?thesis
        by (simp add: append_done_def store_inv_next_task Let_def)
    qed
  qed
qed (use assms in \<open>simp_all add: append_done_def\<close>)

lemma store_inv_write_done:
  assumes "store_inv st"
  shows "store_inv (write_done pf ft st)"
proof (cases "worker st")
  case (WritingFinal j sd)
  show ?thesis
  proof (cases "currentRunPath st")
    case None
    with assms WritingFinal show ?thesis
      by (simp add: write_done_def store_inv_next_task)
  next
    case (Some rp)
    let ?st1 = "st\<lparr>disk := fst (atomicWrite pf ft sd (finalPath rp) (ObjectDoc j) (disk st))\<rparr>"
    have st1: "store_inv ?st1"
      using assms by (simp add: store_inv_def no_interrupted_atomicWrite)
    show ?thesis
    proof (cases "metaData st")
      case None
      with assms WritingFinal Some st1 show ?thesis
        by (simp add: write_done_def store_inv_next_task)
    next
      case m: (Some m)
      have "store_inv (?st1\<lparr>metaData := Some (m\<lparr>status := Completed\<rparr>),
          worker := WritingMeta (FinalTask j) (m\<lparr>status := Completed\<rparr>) (shutdownRequested st)\<rparr>)"
        using st1 by (simp add: store_inv_def)
      with assms WritingFinal Some m show ?thesis
        by (simp add: write_done_def Let_def)
    qed
  qed
next
  case (WritingMeta t m sd)
  show ?thesis
  proof (cases "currentRunPath st")
    case None
    with assms WritingMeta show ?thesis
      by (simp add: write_done_def store_inv_next_task)
  next
    case (Some rp)
    have "sd \<or> status m \<noteq> Interrupted"
      using assms WritingMeta by (auto simp: store_inv_def)
    then have "no_interrupted_meta (fst (atomicWrite pf ft sd (metaPath rp) (MetaDoc m) (disk st)))"
      using assms by (intro no_interrupted_atomicWrite) (auto simp: store_inv_def)
    then have "store_inv (st\<lparr>disk := fst (atomicWrite pf ft sd (metaPath rp) (MetaDoc m) (disk st))\<rparr>)"
      using assms by (simp add: store_inv_def)
    with WritingMeta Some show ?thesis
      by (simp add: write_done_def store_inv_next_task)
  qed
qed (use assms in \<open>simp_all add: write_done_def\<close>)

lemma store_inv_step: "store_inv st \<Longrightarrow> store_inv (store_step pf st ev)"
  by (cases ev)
     (simp_all add: store_inv_savePageResult store_inv_saveSynthesis store_inv_flush
        store_inv_append_done store_inv_write_done store_inv_flush_poll store_inv_flush_read_done)

lemma store_inv_run: "store_inv st \<Longrightarrow> store_inv (store_run pf st evs)"
  unfolding store_run_def
  by (induction evs arbitrary: st) (simp_all add: store_inv_step del: store_step.simps)

lemma disk_meta_never_interrupted:
  "disk_meta (store_run pf (initialize pf env ctx now dir (new_store Map.empty)) evs) = Some m
   \<Longrightarrow> status m \<noteq> Interrupted"
  using store_inv_run [OF store_inv_initialize, of pf pf env ctx now dir evs]
  by (auto simp: store_inv_def no_interrupted_meta_def disk_meta_def split: option.splits content.splits)

lemma next_task_shutdown:
  "shutdownRequested st \<Longrightarrow>
     shutdownRequested (next_task st) \<and> writeQueue (next_task st) = writeQueue st \<and>
     flusher (next_task st) = flusher st \<and> isFlushing (next_task st) = isFlushing st"
  by (simp add: next_task_def split: list.splits)

lemma resolve_frame [simp]:
  "shutdownRequested (resolve t b st) = shutdownRequested st"
  "writeQueue (resolve t b st) = writeQueue st"
  "flusher (resolve t b st) = flusher st"
  "isFlushing (resolve t b st) = isFlushing st"
  by (simp_all add: resolve_def)

lemma stuck_next_task: "stuck q st \<Longrightarrow> stuck q (next_task st)"
  by (simp add: stuck_def next_task_shutdown)

lemma stuck_resolve [simp]: "stuck q (resolve t b st) = stuck q st"
  by (simp add: stuck_def)

lemma stuck_append_done: "stuck q st \<Longrightarrow> stuck q (append_done ok st)"
proof (cases "worker st")
  case (Appending j)
  assume s: "stuck q st"
  have a: "stuck q (st\<lparr>disk := d\<rparr>)" for d using s by (simp add: stuck_def)
  have b: "stuck q (st\<lparr>disk := d, metaData := m, worker := w\<rparr>)" for d m w using s by (simp add: stuck_def)
  from s Appending a b show ?thesis
    by (simp add: append_done_def Let_def stuck_next_task split: option.splits)
qed (simp_all add: append_done_def)

lemma stuck_write_done: "stuck q st \<Longrightarrow> stuck q (write_done pf ft st)"
proof (cases "worker st")
  case (WritingFinal j sd)
  assume s: "stuck q st"
  have a: "stuck q (st\<lparr>disk := d\<rparr>)" for d using s by (simp add: stuck_def)
  have b: "stuck q (st\<lparr>disk := d, metaData := m, worker := w\<rparr>)" for d m w using s by (simp add: stuck_def)
  from s WritingFinal a b show ?thesis
    by (simp add: write_done_def Let_def stuck_next_task split: option.splits)
next
  case (WritingMeta t m sd)
  assume s: "stuck q st"
  have a: "stuck q (st\<lparr>disk := d\<rparr>)" for d using s by (simp add: stuck_def)
  from s WritingMeta a show ?thesis
    by (simp add: write_done_def Let_def stuck_next_task split: option.splits)
qed (simp_all add: write_done_def)

lemma stuck_step: "stuck q st \<Longrightarrow> stuck q (store_step pf st ev)"
proof (cases ev)
  case (SavePageResult p)
  assume "stuck q st"
  with SavePageResult show ?thesis
    by (simp add: savePageResult_def stuck_def split: option.splits)
next
  case (SaveSynthesis f)
  assume "stuck q st"
  with SaveSynthesis show ?thesis
    by (simp add: saveSynthesis_def stuck_def split: option.splits)
next
  case Flush
  assume "stuck q st"
  with Flush show ?thesis by (simp add: flush_def stuck_def)
next
  case FlushPoll
  assume "stuck q st"
  with FlushPoll show ?thesis by (simp add: flush_poll_def stuck_def)
next
  case (FlushReadDone ft)
  assume "stuck q st"
  with FlushReadDone show ?thesis by (simp add: flush_read_done_def stuck_def)
qed (simp_all add: stuck_append_done stuck_write_done)

lemma stuck_run: "stuck q st \<Longrightarrow> stuck q (store_run pf st evs)"
  unfolding store_run_def
  by (induction evs arbitrary: st) (simp_all add: stuck_step del: store_step.simps)


lemma fresh_run_fields:
  "currentRunPath (fresh_run pf) \<noteq> None"
  "\<not> shutdownRequested (fresh_run pf)"
  "writeQueue (fresh_run pf) = []"
  "\<not> processingQueue (fresh_run pf)"
  "\<not> isFlushing (fresh_run pf)"
  by (simp_all add: fresh_run_def initialize_def no_init_faults_def new_store_def Let_def split: prod.splits)

lemma two_pages_then_flush_stuck:
  "stuck [PageTask ''{page 2}''] (store_run pf (fresh_run pf) two_pages_then_flush)"
  using fresh_run_fields [of pf]
  by (auto simp: two_pages_then_flush_def store_run_def savePageResult_def processQueue_def
      next_task_def flush_def stuck_def)

text \<open>
  With two page saves queued when \<open>flush\<close> is called, the wait loop of \<open>flush\<close> never
  ends, whatever happens afterwards and on every platform: the second task stays in the
  queue, since the loop of \<open>processQueue\<close> stops once shutdown is requested.
\<close>

lemma flush_never_returns:
  "flusher (store_run pf (fresh_run pf) (two_pages_then_flush @ evs)) = Draining \<and>
   writeQueue (store_run pf (fresh_run pf) (two_pages_then_flush @ evs)) = [PageTask ''{page 2}'']"
proof -
  have "store_run pf (fresh_run pf) (two_pages_then_flush @ evs)
      = store_run pf (store_run pf (fresh_run pf) two_pages_then_flush) evs"
    by (simp add: store_run_def)
  with stuck_run [OF two_pages_then_flush_stuck, of pf pf evs] show ?thesis
    by (simp add: stuck_def)
qed

lemmas store_defs = store_run_def fresh_run_def initialize_def no_init_faults_def example_context_def
  new_store_def atomicWrite_def node_platform_def unlink_def metaPath_def questionsPath_def pagesPath_def
  finalPath_def savePageResult_def saveSynthesis_def processQueue_def next_task_def resolve_def
  append_done_def write_done_def flush_def flush_after_drain_def flush_poll_def flush_read_done_def
  appendFile_def disk_meta_def final_non_null_def Let_def initial_meta_def write_if_missing_def
  create_if_missing_def reread_meta_def one_page_then_flush_def one_synthesis_def

text \<open>
  Claim C3, evaluated on the code. A run is initialised on an empty disk, one page save is
  queued and processed to its end, then \<open>flush\<close> runs to its end (N = 1). Afterwards the
  page log holds the line and the in-memory meta says interrupted with one page, but there
  is no \<open>meta.json\<close> on disk: the write in \<open>flush\<close> is an \<open>atomicWrite\<close> called
  after \<open>shutdownRequested\<close> was set, which returns at once.
\<close>

theorem flush_leaves_disk_meta_unwritten:
  "disk_meta (store_run node_platform (fresh_run node_platform) one_page_then_flush) = None \<and>
   map_option status (metaData (store_run node_platform (fresh_run node_platform) one_page_then_flush))
     = Some Interrupted \<and>
   map_option pageCount (metaData (store_run node_platform (fresh_run node_platform) one_page_then_flush))
     = Some 1 \<and>
   resolved (store_run node_platform (fresh_run node_platform) one_page_then_flush)
     = [(PageTask ''{page 1}'', True)] \<and>
   flusher (store_run node_platform (fresh_run node_platform) one_page_then_flush) = NotFlushing"
  by (simp add: store_defs)

text \<open>
  The same run on a platform whose \<open>fs\<close> has a working \<open>fsync\<close>: the meta on disk still
  says running after \<open>flush\<close>.
\<close>

lemma flush_leaves_disk_meta_running:
  "map_option status (disk_meta (store_run \<lparr>has_fsync = True\<rparr> (fresh_run \<lparr>has_fsync = True\<rparr>) one_page_then_flush))
     = Some Running"
  by (simp add: store_defs)

text \<open>
  Claim C4, evaluated on the code. A run is initialised on an empty disk and one synthesis
  save is queued and processed to its end. The task is resolved with true and the
  in-memory meta says completed, while \<open>final.json\<close> holds no object (it does not exist):
  the \<open>atomicWrite\<close> of \<open>final.json\<close> failed and its result was not looked at.
\<close>

theorem completed_without_final:
  "map_option status (metaData (store_run node_platform (fresh_run node_platform) one_synthesis))
     = Some Completed \<and>
   \<not> final_non_null (store_run node_platform (fresh_run node_platform) one_synthesis) \<and>
   resolved (store_run node_platform (fresh_run node_platform) one_synthesis)
     = [(FinalTask ''{synthesis}'', True)] \<and>
   disk_meta (store_run node_platform (fresh_run node_platform) one_synthesis) = None"
  by (simp add: store_defs)

text \<open>
  On a platform whose \<open>fs\<close> has a working \<open>fsync\<close>, a failed rename of \<open>final.json\<close>
  gives the same on disk: the meta says completed and \<open>final.json\<close> holds \<open>null\<close>.
\<close>

lemma completed_on_disk_without_final:
  "map_option status (disk_meta (store_run \<lparr>has_fsync = True\<rparr> (fresh_run \<lparr>has_fsync = True\<rparr>)
      [SaveSynthesis (Some ''{synthesis}''), WriteDone RenameFails, WriteDone NoFault])) = Some Completed \<and>
   \<not> final_non_null (store_run \<lparr>has_fsync = True\<rparr> (fresh_run \<lparr>has_fsync = True\<rparr>)
      [SaveSynthesis (Some ''{synthesis}''), WriteDone RenameFails, WriteDone NoFault])"
  by (simp add: store_defs)

section \<open>The Fetcher\<close>

lemma read_body_chunks:
  assumes "\<forall>e\<in>set es. is_chunk e" and "length data \<le> MAX_TEXT_LENGTH * 2"
  shows "read_body es data =
     (if length data + length (concat (map chunk_text es)) > MAX_TEXT_LENGTH * 2
      then Inl ResponseTooLarge else Inr (data @ concat (map chunk_text es)))"
  using assms
proof (induction es arbitrary: data)
  case Nil
  then show ?case by simp
next
  case (Cons e es)
  then obtain c where e: "e = Chunk c" by (cases e) auto
  show ?case
  proof (cases "length (data @ c) > MAX_TEXT_LENGTH * 2")
    case True
    then show ?thesis using e by simp
  next
    case False
    then have "length (data @ c) \<le> MAX_TEXT_LENGTH * 2" by simp
    with Cons.IH [of "data @ c"] Cons.prems False e show ?thesis
      by (simp add: add.assoc)
  qed
qed

text \<open>
  Claim C8, as amended. Let the chain of requests from \<open>url\<close> end, after any redirects,
  with a response \<open>r\<close> whose body events are data chunks only (no cancellation, timeout
  or stream error). Then the fetch fails with the HTTP-status error exactly when the status
  of \<open>r\<close> is not 200; with status 200 it fails as not HTML when the \<open>Content-Type\<close>
  header does not contain \<open>text/html\<close>; otherwise it fails as too large when the chunks
  together are longer than twice the maximum text length, and else returns the body.
\<close>

theorem fetch_final_response:
  assumes "final_response w url r" and "\<forall>e\<in>set (body r). is_chunk e"
  shows "fetchWithTimeout w url False =
     Some (if statusCode r \<noteq> 200 then Inl (HttpStatus (statusCode r))
           else if \<not> str_includes (case contentType r of None \<Rightarrow> [] | Some ct \<Rightarrow> ct) ''text/html''
           then Inl NotHtml
           else if length (concat (map chunk_text (body r))) > MAX_TEXT_LENGTH * 2
           then Inl ResponseTooLarge
           else Inr (concat (map chunk_text (body r))))"
  using assms
proof (induction rule: final_response.induct)
  case (here w url r)
  have "fetchWithTimeout w url False = Some (handle_response r)"
    using here by (subst fetchWithTimeout.simps) simp
  moreover have "read_body (body r) [] =
     (if length (concat (map chunk_text (body r))) > MAX_TEXT_LENGTH * 2
      then Inl ResponseTooLarge else Inr (concat (map chunk_text (body r))))"
    using read_body_chunks [of "body r" "[]"] here.prems by simp
  ultimately show ?case
    by (simp add: handle_response_def)
next
  case (hop w url r' l url' r)
  have "fetchWithTimeout w url False = fetchWithTimeout w url' False"
    using hop.hyps by (subst fetchWithTimeout.simps) simp
  with hop.IH hop.prems show ?case by simp
qed

lemma example_web_final_response: "final_response (example_web code) ''http://example.com/old'' (example_response code)"
proof (rule final_response.hop)
  show "accepts (example_web code) ''http://example.com/old''" by (simp add: example_web_def)
  show "respond (example_web code) ''http://example.com/old'' =
    Response \<lparr>statusCode = 301, location = Some ''/new'', contentType = None, body = []\<rparr>"
    by (simp add: example_web_def)
  show "is_redirect \<lparr>statusCode = 301, location = Some ''/new'', contentType = None, body = []\<rparr>"
    by (simp add: is_redirect_def)
  show "location \<lparr>statusCode = 301, location = Some ''/new'', contentType = None, body = []\<rparr> = Some ''/new''"
    by simp
  show "resolve_location (example_web code) ''/new'' ''http://example.com/old'' = Some ''http://example.com/new''"
    by (simp add: example_web_def)
  show "final_response (example_web code) ''http://example.com/new'' (example_response code)"
    by (rule final_response.here) (simp_all add: example_web_def example_response_def is_redirect_def)
qed

theorem fetch_final_response_witness:
  "final_response (example_web 200) ''http://example.com/old'' (example_response 200) \<and>
   fetchWithTimeout (example_web 200) ''http://example.com/old'' False = Some (Inr ''<html></html>'')"
proof -
  have c: "\<forall>e\<in>set (body (example_response 200)). is_chunk e"
    by (simp add: example_response_def)
  from fetch_final_response [OF example_web_final_response c] example_web_final_response [of 200] show ?thesis
    by (simp add: example_response_def MAX_TEXT_LENGTH_def)
qed

text \<open>
  Claim C8 as stated fails: a final response with status 204, which is a 2xx status, and an
  HTML content type is rejected with the HTTP-status error.
\<close>

theorem status_204_rejected:
  "200 \<le> statusCode (example_response 204) \<and> statusCode (example_response 204) < 300 \<and>
   final_response (example_web 204) ''http://example.com/old'' (example_response 204) \<and>
   fetchWithTimeout (example_web 204) ''http://example.com/old'' False = Some (Inl (HttpStatus 204))"
proof -
  have "fetchWithTimeout (example_web 204) ''http://example.com/old'' False
      = fetchWithTimeout (example_web 204) ''http://example.com/new'' False"
    by (subst fetchWithTimeout.simps) (simp add: example_web_def is_redirect_def)
  also have "\<dots> = Some (Inl (HttpStatus 204))"
    by (subst fetchWithTimeout.simps)
       (simp add: example_web_def example_response_def is_redirect_def handle_response_def)
  finally show ?thesis
    using example_web_final_response [of 204] by (simp add: example_response_def)
qed

section \<open>The URL Normalizer\<close>







lemma before_after_decomp:
  "before c s @ (case after c s of None \<Rightarrow> [] | Some r \<Rightarrow> c # r) = s"
  unfolding before_def after_def
  by (induction s) (auto split: list.splits)

lemma before_no_sep: "c \<notin> set (before c s)"
  unfolding before_def by (induction s) auto




lemma host_ok_nonempty: "host_ok h \<Longrightarrow> h \<noteq> []"
  by (auto simp: host_ok_def)

lemma split_on_nonempty [simp]: "split_on c s \<noteq> []"
  by (induction s) (auto split: list.splits)














lemma startsWith_append [simp]: "startsWith (p @ s) p"
  by (induction p) auto





lemma URLSearchParams_plain: "s = [] \<or> hd s \<noteq> CHR ''?'' \<Longrightarrow> URLSearchParams s = parse_query s"
  by (auto simp: URLSearchParams_def parse_query_def)






















section \<open>The Crawl Orchestrator: invariants of a session\<close>

lemma shouldAbort_frame:
  assumes "shouldAbort env s = (b, s')"
  shows "tasks s' = tasks s" "semaphore s' = semaphore s" "visitedUrls s' = visitedUrls s"
    "effects s' = effects s" "released s' = released s" "session_pageCount s' = session_pageCount s"
  using assms by (auto simp: shouldAbort_def split: if_splits)


lemma set_stage_frame [simp]:
  "semaphore (set_stage tid st s) = semaphore s"
  "visitedUrls (set_stage tid st s) = visitedUrls s"
  "effects (set_stage tid st s) = effects s"
  "released (set_stage tid st s) = released s"
  "session_pageCount (set_stage tid st s) = session_pageCount s"
  "aborted (set_stage tid st s) = aborted s"
  "stopCalls (set_stage tid st s) = stopCalls s"
  "length (tasks (set_stage tid st s)) = length (tasks s)"
  by (simp_all add: set_stage_def)

lemma set_stage_nth:
  "i < length (tasks s) \<Longrightarrow>
     tasks (set_stage tid st s) ! i = (if i = tid then (tasks s ! i)\<lparr>stage := st\<rparr> else tasks s ! i)"
  by (simp add: set_stage_def nth_list_update)

lemma map_update_same:
  "(\<And>x. f (g x) = f x) \<Longrightarrow> map f (xs[i := g (xs ! i)]) = map f xs"
  by (induction xs arbitrary: i) (auto split: nat.splits)

lemma set_stage_columns [simp]:
  "map depth (tasks (set_stage tid st s)) = map depth (tasks s)"
  "map parent (tasks (set_stage tid st s)) = map parent (tasks s)"
  "map task_url (tasks (set_stage tid st s)) = map task_url (tasks s)"
  by (simp_all add: set_stage_def map_update_same)

lemma set_stage_stages:
  "map stage (tasks (set_stage tid st s)) = (map stage (tasks s))[tid := st]"
  by (simp add: set_stage_def map_update)

lemma release_slot_frame [simp]:
  "visitedUrls (release_slot tid s) = visitedUrls s"
  "effects (release_slot tid s) = effects s"
  "released (release_slot tid s) = released s @ [tid]"
  "session_pageCount (release_slot tid s) = session_pageCount s"
  "aborted (release_slot tid s) = aborted s"
  "stopCalls (release_slot tid s) = stopCalls s"
  "length (tasks (release_slot tid s)) = length (tasks s)"
  by (simp_all add: release_slot_def split: prod.splits option.splits)

lemma release_slot_columns [simp]:
  "map depth (tasks (release_slot tid s)) = map depth (tasks s)"
  "map parent (tasks (release_slot tid s)) = map parent (tasks s)"
  "map task_url (tasks (release_slot tid s)) = map task_url (tasks s)"
  by (simp_all add: release_slot_def split: prod.splits option.splits)

lemma finish_frame [simp]:
  "visitedUrls (finish tid s) = visitedUrls s"
  "effects (finish tid s) = effects s"
  "released (finish tid s) = released s @ [tid]"
  "session_pageCount (finish tid s) = session_pageCount s"
  "aborted (finish tid s) = aborted s"
  "stopCalls (finish tid s) = stopCalls s"
  "length (tasks (finish tid s)) = length (tasks s)"
  "map depth (tasks (finish tid s)) = map depth (tasks s)"
  "map parent (tasks (finish tid s)) = map parent (tasks s)"
  "map task_url (tasks (finish tid s)) = map task_url (tasks s)"
  by (simp_all add: finish_def)

lemma processUrl_frame:
  "effects (processUrl env par d s url) = effects s"
  "released (processUrl env par d s url) = released s"
  "session_pageCount (processUrl env par d s url) = session_pageCount s"
  "\<exists>st. tasks (processUrl env par d s url) = tasks s @ [\<lparr>task_url = url, depth = d, parent = par, stage = st\<rparr>]"
  by (auto simp: processUrl_def shouldAbort_def Let_def split: prod.splits if_splits)



lemma task_split:
  assumes "tid < length (tasks s)"
  obtains A B where "tasks s = A @ (tasks s ! tid) # B" and "length A = tid"
    and "tasks (set_stage tid st s) = A @ (tasks s ! tid)\<lparr>stage := st\<rparr> # B"
proof
  show "tasks s = take tid (tasks s) @ (tasks s ! tid) # drop (Suc tid) (tasks s)"
    using assms by (rule id_take_nth_drop)
  show "length (take tid (tasks s)) = tid" using assms by simp
  show "tasks (set_stage tid st s) = take tid (tasks s) @ (tasks s ! tid)\<lparr>stage := st\<rparr> # drop (Suc tid) (tasks s)"
    using assms by (simp add: set_stage_def upd_conv_take_nth_drop)
qed

lemma at_stage_set_stage:
  assumes "w < length (tasks s)"
  shows "at_stage w st' (set_stage tid st s) \<longleftrightarrow> (if w = tid then st' = st else at_stage w st' s)"
  using assms by (auto simp: at_stage_def set_stage_nth)

lemma at_stage_lt: "at_stage w st s \<Longrightarrow> w < length (tasks s)"
  by (simp add: at_stage_def)

text \<open>changing the stage of a task\<close>

lemma holders_set_stage:
  assumes "tid < length (tasks s)"
  shows "int (length (filter holds_slot (tasks (set_stage tid st s)))) =
     int (length (filter holds_slot (tasks s)))
       - (if holds_slot (tasks s ! tid) then 1 else 0)
       + (if holds_slot ((tasks s ! tid)\<lparr>stage := st\<rparr>) then 1 else 0)"
proof -
  from assms obtain A B where s: "tasks s = A @ (tasks s ! tid) # B"
    and s': "tasks (set_stage tid st s) = A @ (tasks s ! tid)\<lparr>stage := st\<rparr> # B"
    by (rule task_split)
  have "length (filter holds_slot (tasks s)) =
      length (filter holds_slot A) + (if holds_slot (tasks s ! tid) then 1 else 0) + length (filter holds_slot B)"
    by (subst s) simp
  moreover have "length (filter holds_slot (tasks (set_stage tid st s))) =
      length (filter holds_slot A) + (if holds_slot ((tasks s ! tid)\<lparr>stage := st\<rparr>) then 1 else 0) + length (filter holds_slot B)"
    by (subst s') simp
  ultimately show ?thesis by simp
qed

lemma queue_ok_set_stage:
  assumes "queue_ok s" and "tid \<notin> set (queue (semaphore s))" and "st \<noteq> Queued"
  shows "queue_ok (set_stage tid st s)"
  using assms by (auto simp: queue_ok_def at_stage_def set_stage_nth)

lemma queue_ok_not_queued:
  assumes "queue_ok s" and "at_stage tid st s" and "st \<noteq> Queued"
  shows "tid \<notin> set (queue (semaphore s))"
  using assms by (auto simp: queue_ok_def at_stage_def)

lemma slots_ok_keep_holder:
  assumes "slots_ok s" and "at_stage tid st s" and "holds_slot \<lparr>task_url = u, depth = d, parent = p, stage = st\<rparr>"
    and "holds_slot \<lparr>task_url = u, depth = d, parent = p, stage = st'\<rparr>"
  shows "slots_ok (set_stage tid st' s)"
proof -
  from assms(2) have lt: "tid < length (tasks s)" and st: "stage (tasks s ! tid) = st"
    by (simp_all add: at_stage_def)
  from assms(3,4) st have "holds_slot (tasks s ! tid)" "holds_slot ((tasks s ! tid)\<lparr>stage := st'\<rparr>)"
    by (simp_all add: holds_slot_def)
  with holders_set_stage [OF lt, of st'] assms(1) show ?thesis
    by (simp add: slots_ok_def)
qed

text \<open>release and return\<close>

lemma queue_ok_intro:
  assumes "distinct (queue (semaphore s))"
    and "\<And>w. w \<in> set (queue (semaphore s)) \<Longrightarrow> w < length (tasks s) \<and> stage (tasks s ! w) = Queued"
    and "\<And>i. i < length (tasks s) \<Longrightarrow> stage (tasks s ! i) = Queued \<Longrightarrow> i \<in> set (queue (semaphore s))"
  shows "queue_ok s"
  using assms by (simp add: queue_ok_def at_stage_def)

lemma queue_ok_elims:
  assumes "queue_ok s"
  shows "distinct (queue (semaphore s))"
    and "w \<in> set (queue (semaphore s)) \<Longrightarrow> w < length (tasks s) \<and> stage (tasks s ! w) = Queued"
    and "i < length (tasks s) \<Longrightarrow> stage (tasks s ! i) = Queued \<Longrightarrow> i \<in> set (queue (semaphore s))"
  using assms by (simp_all add: queue_ok_def at_stage_def)

lemma gate_ok_finish:
  assumes q: "queue_ok s" and sl: "slots_ok s" and lt: "tid < length (tasks s)"
    and h: "holds_slot (tasks s ! tid)"
  shows "queue_ok (finish tid s) \<and> slots_ok (finish tid s)"
proof (cases "queue (semaphore s)")
  case Nil
  let ?s1 = "s\<lparr>semaphore := (semaphore s)\<lparr>current := current (semaphore s) - 1\<rparr>, released := released s @ [tid]\<rparr>"
  from Nil have f: "finish tid s = set_stage tid Done ?s1"
    by (simp add: finish_def release_slot_def release_def)
  have "queue_ok (set_stage tid Done ?s1)"
  proof (rule queue_ok_intro)
    show "distinct (queue (semaphore (set_stage tid Done ?s1)))" using Nil by simp
    show "w < length (tasks (set_stage tid Done ?s1)) \<and> stage (tasks (set_stage tid Done ?s1) ! w) = Queued"
      if "w \<in> set (queue (semaphore (set_stage tid Done ?s1)))" for w
      using that Nil by simp
    show "i \<in> set (queue (semaphore (set_stage tid Done ?s1)))"
      if "i < length (tasks (set_stage tid Done ?s1))" "stage (tasks (set_stage tid Done ?s1) ! i) = Queued" for i
    proof -
      from that have "i < length (tasks s)" "stage (tasks s ! i) = Queued"
        by (auto simp: set_stage_nth split: if_splits)
      with queue_ok_elims(3) [OF q] Nil show ?thesis by auto
    qed
  qed
  moreover have "slots_ok (set_stage tid Done ?s1)"
    using sl h holders_set_stage [of tid ?s1 Done] lt
    by (simp add: slots_ok_def holds_slot_def)
  ultimately show ?thesis unfolding f ..
next
  case (Cons w ws)
  let ?s1 = "s\<lparr>semaphore := (semaphore s)\<lparr>queue := ws\<rparr>, released := released s @ [tid]\<rparr>"
  let ?s2 = "set_stage tid Done (set_stage w Ready ?s1)"
  have f: "finish tid s = ?s2"
    using Cons by (simp add: finish_def release_slot_def release_def)
  from queue_ok_elims(1,2) [OF q] Cons have w: "w < length (tasks s)" "stage (tasks s ! w) = Queued"
    "w \<notin> set ws" "distinct ws"
    and ws: "\<And>v. v \<in> set ws \<Longrightarrow> v < length (tasks s) \<and> stage (tasks s ! v) = Queued"
    by auto
  from h w have ne: "w \<noteq> tid" by (auto simp: holds_slot_def)
  have stage2: "stage (tasks ?s2 ! i) = (if i = tid then Done else if i = w then Ready else stage (tasks s ! i))"
    if "i < length (tasks s)" for i
    using that by (simp add: set_stage_nth)
  have "queue_ok ?s2"
  proof (rule queue_ok_intro)
    show "distinct (queue (semaphore ?s2))" using w by simp
    show "v < length (tasks ?s2) \<and> stage (tasks ?s2 ! v) = Queued"
      if "v \<in> set (queue (semaphore ?s2))" for v
    proof -
      from that have v: "v \<in> set ws" by simp
      with ws [of v] w h have "v \<noteq> w" "v \<noteq> tid" "v < length (tasks s)" "stage (tasks s ! v) = Queued"
        by (auto simp: holds_slot_def)
      with stage2 [of v] show ?thesis by simp
    qed
    show "i \<in> set (queue (semaphore ?s2))"
      if "i < length (tasks ?s2)" "stage (tasks ?s2 ! i) = Queued" for i
    proof -
      from that(1) have i: "i < length (tasks s)" by simp
      with that(2) stage2 [of i] have "i \<noteq> tid" "i \<noteq> w" "stage (tasks s ! i) = Queued"
        by (auto split: if_splits)
      with queue_ok_elims(3) [OF q i] Cons show ?thesis by simp
    qed
  qed
  moreover have "slots_ok ?s2"
  proof -
    have a: "int (length (filter holds_slot (tasks (set_stage w Ready ?s1)))) =
        int (length (filter holds_slot (tasks s))) + 1"
      using holders_set_stage [of w ?s1 Ready] w by (simp add: holds_slot_def)
    have "tasks (set_stage w Ready ?s1) ! tid = tasks s ! tid"
      using ne lt by (simp add: set_stage_nth)
    then have b: "int (length (filter holds_slot (tasks ?s2))) =
        int (length (filter holds_slot (tasks (set_stage w Ready ?s1)))) - 1"
      using holders_set_stage [of tid "set_stage w Ready ?s1" Done] lt h
      by (simp add: holds_slot_def)
    from a b sl show ?thesis
      by (simp add: slots_ok_def)
  qed
  ultimately show ?thesis unfolding f ..
qed

text \<open>starting a call\<close>

lemma processUrl_cases:
  obtains (skipped) b s1 where "shouldAbort env s = (b, s1)"
      "b \<or> normalize env url \<in> visitedUrls s"
      "processUrl env par d s url =
         s1\<lparr>tasks := tasks s @ [\<lparr>task_url = url, depth = d, parent = par, stage = Done\<rparr>]\<rparr>"
  | (granted) s1 where "shouldAbort env s = (False, s1)"
      "normalize env url \<notin> visitedUrls s"
      "current (semaphore s) < semaphore.max (semaphore s)"
      "processUrl env par d s url =
         s1\<lparr>visitedUrls := insert (normalize env url) (visitedUrls s),
            semaphore := (semaphore s)\<lparr>current := current (semaphore s) + 1\<rparr>,
            tasks := tasks s @ [\<lparr>task_url = url, depth = d, parent = par, stage = Ready\<rparr>]\<rparr>"
  | (queued) s1 where "shouldAbort env s = (False, s1)"
      "normalize env url \<notin> visitedUrls s"
      "\<not> current (semaphore s) < semaphore.max (semaphore s)"
      "processUrl env par d s url =
         s1\<lparr>visitedUrls := insert (normalize env url) (visitedUrls s),
            semaphore := (semaphore s)\<lparr>queue := queue (semaphore s) @ [length (tasks s)]\<rparr>,
            tasks := tasks s @ [\<lparr>task_url = url, depth = d, parent = par, stage = Queued\<rparr>]\<rparr>"
proof -
  obtain b s1 where sa: "shouldAbort env s = (b, s1)" by (cases "shouldAbort env s")
  note fr = shouldAbort_frame [OF sa]
  show ?thesis
  proof (cases "b \<or> normalize env url \<in> visitedUrls s")
    case True
    with sa fr have "processUrl env par d s url =
         s1\<lparr>tasks := tasks s @ [\<lparr>task_url = url, depth = d, parent = par, stage = Done\<rparr>]\<rparr>"
      by (cases b) (simp_all add: processUrl_def Let_def)
    with sa True show ?thesis by (rule skipped)
  next
    case False
    then have nb: "\<not> b" and nv: "normalize env url \<notin> visitedUrls s" by simp_all
    show ?thesis
    proof (cases "current (semaphore s) < semaphore.max (semaphore s)")
      case True
      with sa fr nb nv have "processUrl env par d s url =
         s1\<lparr>visitedUrls := insert (normalize env url) (visitedUrls s),
            semaphore := (semaphore s)\<lparr>current := current (semaphore s) + 1\<rparr>,
            tasks := tasks s @ [\<lparr>task_url = url, depth = d, parent = par, stage = Ready\<rparr>]\<rparr>"
        by (simp add: processUrl_def Let_def acquire_def)
      with sa nb nv True show ?thesis using granted by simp
    next
      case nf: False
      with sa fr nb nv have "processUrl env par d s url =
         s1\<lparr>visitedUrls := insert (normalize env url) (visitedUrls s),
            semaphore := (semaphore s)\<lparr>queue := queue (semaphore s) @ [length (tasks s)]\<rparr>,
            tasks := tasks s @ [\<lparr>task_url = url, depth = d, parent = par, stage = Queued\<rparr>]\<rparr>"
        by (simp add: processUrl_def Let_def acquire_def)
      with sa nb nv nf show ?thesis using queued by simp
    qed
  qed
qed

lemma queue_ok_append_task:
  assumes q: "queue_ok s" and "tasks s' = tasks s @ [t]"
    and "queue (semaphore s') = queue (semaphore s) @ (if stage t = Queued then [length (tasks s)] else [])"
  shows "queue_ok s'"
proof (rule queue_ok_intro)
  have fresh: "length (tasks s) \<notin> set (queue (semaphore s))"
    using queue_ok_elims(2) [OF q, of "length (tasks s)"] by auto
  with queue_ok_elims(1) [OF q] assms(3) show "distinct (queue (semaphore s'))" by simp
  show "w < length (tasks s') \<and> stage (tasks s' ! w) = Queued" if "w \<in> set (queue (semaphore s'))" for w
  proof (cases "w \<in> set (queue (semaphore s))")
    case True
    with queue_ok_elims(2) [OF q, of w] assms(2) show ?thesis by (simp add: nth_append)
  next
    case False
    with that assms(3) have "stage t = Queued" "w = length (tasks s)" by (auto split: if_splits)
    with assms(2) show ?thesis by simp
  qed
  show "i \<in> set (queue (semaphore s'))" if "i < length (tasks s')" "stage (tasks s' ! i) = Queued" for i
  proof (cases "i < length (tasks s)")
    case True
    with that assms(2) queue_ok_elims(3) [OF q, of i] assms(3) show ?thesis by (simp add: nth_append)
  next
    case False
    with that assms(2) have "i = length (tasks s)" "stage t = Queued" by (auto simp: nth_append)
    with assms(3) show ?thesis by simp
  qed
qed

lemma slots_ok_append_task:
  assumes sl: "slots_ok s" and "tasks s' = tasks s @ [t]"
    and "semaphore.max (semaphore s') = semaphore.max (semaphore s)"
    and "current (semaphore s') = current (semaphore s) + (if holds_slot t then 1 else 0)"
    and "holds_slot t \<longrightarrow> current (semaphore s) < semaphore.max (semaphore s)"
  shows "slots_ok s'"
  using assms by (auto simp: slots_ok_def)

lemma gate_ok_processUrl:
  assumes q: "queue_ok s" and sl: "slots_ok s"
  shows "queue_ok (processUrl env par d s url) \<and> slots_ok (processUrl env par d s url)"
proof (cases rule: processUrl_cases [of env s url par d])
  case (skipped b s1)
  note fr = shouldAbort_frame [OF skipped(1)]
  have "queue_ok (processUrl env par d s url)"
    by (rule queue_ok_append_task [OF q]) (auto simp: skipped(3) fr)
  moreover have "slots_ok (processUrl env par d s url)"
    by (rule slots_ok_append_task [OF sl]) (auto simp: skipped(3) fr holds_slot_def)
  ultimately show ?thesis ..
next
  case (granted s1)
  note fr = shouldAbort_frame [OF granted(1)]
  have "queue_ok (processUrl env par d s url)"
    by (rule queue_ok_append_task [OF q]) (auto simp: granted(4) fr)
  moreover have "slots_ok (processUrl env par d s url)"
    by (rule slots_ok_append_task [OF sl]) (auto simp: granted(3,4) fr holds_slot_def)
  ultimately show ?thesis ..
next
  case (queued s1)
  note fr = shouldAbort_frame [OF queued(1)]
  have "queue_ok (processUrl env par d s url)"
    by (rule queue_ok_append_task [OF q]) (auto simp: queued(4) fr)
  moreover have "slots_ok (processUrl env par d s url)"
    by (rule slots_ok_append_task [OF sl]) (auto simp: queued(4) fr holds_slot_def)
  ultimately show ?thesis ..
qed

lemma column_nth:
  assumes "map f (tasks s') = map f (tasks s)" and "i < length (tasks s)"
  shows "f (tasks s' ! i) = f (tasks s ! i)"
proof -
  from assms(1) have "length (tasks s') = length (tasks s)" by (metis length_map)
  with assms show ?thesis by (metis nth_map)
qed

lemma finish_cases:
  obtains (plain) "queue (semaphore s) = []"
      "finish tid s = set_stage tid Done
         (s\<lparr>semaphore := (semaphore s)\<lparr>current := current (semaphore s) - 1\<rparr>,
            released := released s @ [tid]\<rparr>)"
  | (wake) w ws where "queue (semaphore s) = w # ws"
      "finish tid s = set_stage tid Done (set_stage w Ready
         (s\<lparr>semaphore := (semaphore s)\<lparr>queue := ws\<rparr>, released := released s @ [tid]\<rparr>))"
  by (cases "queue (semaphore s)") (simp_all add: finish_def release_slot_def release_def)

lemma finish_stage:
  assumes "i < length (tasks s)"
  shows "stage (tasks (finish tid s) ! i) =
     (if i = tid then Done
      else if queue (semaphore s) \<noteq> [] \<and> i = hd (queue (semaphore s)) then Ready
      else stage (tasks s ! i))"
proof (cases rule: finish_cases [of s tid])
  case plain
  with assms show ?thesis by (simp add: set_stage_nth)
next
  case (wake w ws)
  with assms show ?thesis by (simp add: set_stage_nth)
qed

lemma finish_depth_parent:
  assumes "i < length (tasks s)"
  shows "depth (tasks (finish tid s) ! i) = depth (tasks s ! i)"
    and "parent (tasks (finish tid s) ! i) = parent (tasks s ! i)"
    and "task_url (tasks (finish tid s) ! i) = task_url (tasks s ! i)"
  using assms column_nth [of depth "finish tid s" s i] column_nth [of parent "finish tid s" s i]
    column_nth [of task_url "finish tid s" s i]
  by simp_all

lemma set_stage_depth_parent:
  assumes "i < length (tasks s)"
  shows "depth (tasks (set_stage tid st s) ! i) = depth (tasks s ! i)"
    and "parent (tasks (set_stage tid st s) ! i) = parent (tasks s ! i)"
    and "task_url (tasks (set_stage tid st s) ! i) = task_url (tasks s ! i)"
  using assms by (simp_all add: set_stage_nth)

lemma set_stage_stage:
  assumes "i < length (tasks s)"
  shows "stage (tasks (set_stage tid st s) ! i) = (if i = tid then st else stage (tasks s ! i))"
  using assms by (simp add: set_stage_nth)

lemma no_children_before_fanout:
  assumes "family_ok s" and "c < length (tasks s)" and "parent (tasks s ! c) = Some p"
  shows "\<not> before_fanout (stage (tasks s ! p))"
  using assms by (fastforce simp: family_ok_def before_fanout_def)

lemma family_ok_set_stage:
  assumes f: "family_ok s" and lt: "tid < length (tasks s)"
    and old: "before_fanout (stage (tasks s ! tid))" and new: "st \<noteq> Done"
  shows "family_ok (set_stage tid st s)"
  unfolding family_ok_def
proof (intro allI impI)
  fix c assume c: "c < length (tasks (set_stage tid st s))"
  then have c': "c < length (tasks s)" by simp
  show "case parent (tasks (set_stage tid st s) ! c) of
          None \<Rightarrow> depth (tasks (set_stage tid st s) ! c) = 0
        | Some p \<Rightarrow>
            p < length (tasks (set_stage tid st s)) \<and> depth (tasks (set_stage tid st s) ! c) = 1 \<and>
            depth (tasks (set_stage tid st s) ! p) = 0 \<and>
            (stage (tasks (set_stage tid st s) ! p) = WaitChildren \<or> stage (tasks (set_stage tid st s) ! p) = Done) \<and>
            (stage (tasks (set_stage tid st s) ! c) \<noteq> Done \<longrightarrow>
               stage (tasks (set_stage tid st s) ! p) = WaitChildren \<and> p \<notin> set (released (set_stage tid st s)))"
  proof (cases "parent (tasks s ! c)")
    case None
    with f c' show ?thesis
      by (auto simp: family_ok_def set_stage_depth_parent)
  next
    case (Some p)
    with f c' have p: "p < length (tasks s)" by (auto simp: family_ok_def)
    from no_children_before_fanout [OF f c' Some] old have ne: "p \<noteq> tid" by auto
    from f c' Some have "depth (tasks s ! c) = 1 \<and> depth (tasks s ! p) = 0 \<and>
        (stage (tasks s ! p) = WaitChildren \<or> stage (tasks s ! p) = Done) \<and>
        (stage (tasks s ! c) \<noteq> Done \<longrightarrow> stage (tasks s ! p) = WaitChildren \<and> p \<notin> set (released s))"
      by (auto simp: family_ok_def)
    with Some p c' ne old new show ?thesis
      by (auto simp: set_stage_depth_parent set_stage_stage before_fanout_def)
  qed
qed

lemma released_ok_set_stage:
  assumes "released_ok s" and "tid < length (tasks s)" and "stage (tasks s ! tid) \<noteq> Done"
  shows "released_ok (set_stage tid st s)"
  using assms by (auto simp: released_ok_def at_stage_def set_stage_stage)

lemma children_done_nth:
  "children_done tid s \<longleftrightarrow>
     (\<forall>c<length (tasks s). parent (tasks s ! c) = Some tid \<longrightarrow> stage (tasks s ! c) = Done)"
  by (auto simp: children_done_def list_all_length)

lemma hd_queue_Queued:
  assumes "queue_ok s" and "queue (semaphore s) \<noteq> []"
  shows "hd (queue (semaphore s)) < length (tasks s)"
    and "stage (tasks s ! hd (queue (semaphore s))) = Queued"
  using assms by (cases "queue (semaphore s)"; auto simp: queue_ok_def at_stage_def)+

lemma family_ok_finish:
  assumes f: "family_ok s" and q: "queue_ok s" and lt: "tid < length (tasks s)"
    and why: "before_fanout (stage (tasks s ! tid)) \<or> children_done tid s"
    and nq: "stage (tasks s ! tid) \<noteq> Queued"
  shows "family_ok (finish tid s)"
  unfolding family_ok_def
proof (intro allI impI)
  fix c assume "c < length (tasks (finish tid s))"
  then have c: "c < length (tasks s)" by simp
  let ?s' = "finish tid s"
  show "case parent (tasks ?s' ! c) of
          None \<Rightarrow> depth (tasks ?s' ! c) = 0
        | Some p \<Rightarrow>
            p < length (tasks ?s') \<and> depth (tasks ?s' ! c) = 1 \<and> depth (tasks ?s' ! p) = 0 \<and>
            (stage (tasks ?s' ! p) = WaitChildren \<or> stage (tasks ?s' ! p) = Done) \<and>
            (stage (tasks ?s' ! c) \<noteq> Done \<longrightarrow>
               stage (tasks ?s' ! p) = WaitChildren \<and> p \<notin> set (released ?s'))"
  proof (cases "parent (tasks s ! c)")
    case None
    with f c show ?thesis
      by (auto simp: family_ok_def finish_depth_parent)
  next
    case (Some p)
    with f c have p: "p < length (tasks s)"
      and old: "depth (tasks s ! c) = 1" "depth (tasks s ! p) = 0"
        "stage (tasks s ! p) = WaitChildren \<or> stage (tasks s ! p) = Done"
        "stage (tasks s ! c) \<noteq> Done \<longrightarrow> stage (tasks s ! p) = WaitChildren \<and> p \<notin> set (released s)"
      by (auto simp: family_ok_def)
    have pw: "\<not> (queue (semaphore s) \<noteq> [] \<and> p = hd (queue (semaphore s)))"
      using hd_queue_Queued [OF q] old(3) by auto
    have sp: "stage (tasks ?s' ! p) = (if p = tid then Done else stage (tasks s ! p))"
      using finish_stage [OF p, of tid] pw by auto
    have live: "stage (tasks s ! c) \<noteq> Done \<and> p \<noteq> tid" if "stage (tasks ?s' ! c) \<noteq> Done"
    proof -
      from that finish_stage [OF c, of tid] have ct: "c \<noteq> tid" by auto
      have sc: "stage (tasks s ! c) \<noteq> Done"
      proof (cases "queue (semaphore s) \<noteq> [] \<and> c = hd (queue (semaphore s))")
        case True
        with hd_queue_Queued(2) [OF q] show ?thesis by auto
      next
        case False
        with that finish_stage [OF c, of tid] ct show ?thesis by auto
      qed
      have "p \<noteq> tid"
      proof
        assume pt: "p = tid"
        from why show False
        proof
          assume "before_fanout (stage (tasks s ! tid))"
          with no_children_before_fanout [OF f c Some] pt show False by simp
        next
          assume "children_done tid s"
          with c Some pt sc show False by (auto simp: children_done_nth)
        qed
      qed
      with sc show ?thesis ..
    qed
    from Some p c old sp live show ?thesis
      by (auto simp: finish_depth_parent)
  qed
qed

lemma released_ok_finish:
  assumes r: "released_ok s" and q: "queue_ok s" and lt: "tid < length (tasks s)"
  shows "released_ok (finish tid s)"
  unfolding released_ok_def
proof
  fix t assume "t \<in> set (released (finish tid s))"
  then consider "t = tid" | "t \<in> set (released s)" by auto
  then show "at_stage t Done (finish tid s)"
  proof cases
    case 1
    with lt finish_stage [OF lt, of tid] show ?thesis by (simp add: at_stage_def)
  next
    case 2
    with r have t: "t < length (tasks s)" "stage (tasks s ! t) = Done"
      by (auto simp: released_ok_def at_stage_def)
    have "\<not> (queue (semaphore s) \<noteq> [] \<and> t = hd (queue (semaphore s)))"
      using hd_queue_Queued [OF q] t by auto
    with finish_stage [OF t(1), of tid] t show ?thesis
      by (auto simp: at_stage_def)
  qed
qed

text \<open>starting a call keeps the family\<close>

lemma processUrl_old_tasks:
  assumes "i < length (tasks s)"
  shows "tasks (processUrl env par d s url) ! i = tasks s ! i"
  using assms processUrl_frame(4) [of env par d s url] by (auto simp: nth_append)

lemma processUrl_new_task:
  "length (tasks (processUrl env par d s url)) = Suc (length (tasks s))"
  "depth (tasks (processUrl env par d s url) ! length (tasks s)) = d"
  "parent (tasks (processUrl env par d s url) ! length (tasks s)) = par"
  "task_url (tasks (processUrl env par d s url) ! length (tasks s)) = url"
  using processUrl_frame(4) [of env par d s url] by (auto simp: nth_append)

lemma family_ok_processUrl:
  assumes f: "family_ok s"
    and par: "case par of None \<Rightarrow> d = 0
              | Some p \<Rightarrow> d = 1 \<and> p < length (tasks s) \<and> depth (tasks s ! p) = 0 \<and>
                  stage (tasks s ! p) = WaitChildren \<and> p \<notin> set (released s)"
  shows "family_ok (processUrl env par d s url)"
  unfolding family_ok_def
proof (intro allI impI)
  let ?s' = "processUrl env par d s url"
  fix c assume "c < length (tasks ?s')"
  then have "c < Suc (length (tasks s))" by (simp add: processUrl_new_task)
  then consider "c < length (tasks s)" | "c = length (tasks s)"
    by linarith
  then show "case parent (tasks ?s' ! c) of
          None \<Rightarrow> depth (tasks ?s' ! c) = 0
        | Some p \<Rightarrow>
            p < length (tasks ?s') \<and> depth (tasks ?s' ! c) = 1 \<and> depth (tasks ?s' ! p) = 0 \<and>
            (stage (tasks ?s' ! p) = WaitChildren \<or> stage (tasks ?s' ! p) = Done) \<and>
            (stage (tasks ?s' ! c) \<noteq> Done \<longrightarrow>
               stage (tasks ?s' ! p) = WaitChildren \<and> p \<notin> set (released ?s'))"
  proof cases
    case 1
    show ?thesis
    proof (cases "parent (tasks s ! c)")
      case None
      with f 1 show ?thesis by (auto simp: family_ok_def processUrl_old_tasks)
    next
      case (Some p)
      with f 1 have "p < length (tasks s)" by (auto simp: family_ok_def)
      with f 1 Some show ?thesis
        by (auto simp: family_ok_def processUrl_old_tasks processUrl_new_task processUrl_frame)
    qed
  next
    case 2
    show ?thesis
    proof (cases par)
      case None
      with par 2 show ?thesis by (simp add: processUrl_new_task)
    next
      case (Some p)
      with par 2 show ?thesis
        by (simp add: processUrl_new_task processUrl_old_tasks processUrl_frame)
    qed
  qed
qed

lemma released_ok_processUrl:
  assumes "released_ok s"
  shows "released_ok (processUrl env par d s url)"
  using assms
  by (auto simp: released_ok_def at_stage_def processUrl_frame processUrl_old_tasks processUrl_new_task)

lemma processUrl_set_stage:
  assumes "tid < length (tasks s)"
  shows "processUrl env par d (set_stage tid st s) url = set_stage tid st (processUrl env par d s url)"
  using assms
  by (simp add: processUrl_def shouldAbort_def set_stage_def Let_def acquire_def
      list_update_append1 nth_append)

lemma foldl_processUrl_length:
  "length (tasks (foldl (processUrl env par d) s urls)) = length (tasks s) + length urls"
  by (induction urls arbitrary: s) (simp_all add: processUrl_new_task)

lemma foldl_processUrl_set_stage:
  assumes "tid < length (tasks s)"
  shows "foldl (processUrl env par d) (set_stage tid st s) urls =
     set_stage tid st (foldl (processUrl env par d) s urls)"
  using assms
proof (induction urls arbitrary: s)
  case Nil
  then show ?case by simp
next
  case (Cons u urls)
  from Cons.prems have "tid < length (tasks (processUrl env par d s u))"
    by (simp add: processUrl_new_task)
  from Cons.IH [OF this] Cons.prems show ?case
    by (simp add: processUrl_set_stage)
qed

lemma core_ok_processUrl:
  assumes "core_ok s"
    and "case par of None \<Rightarrow> d = 0
         | Some p \<Rightarrow> d = 1 \<and> p < length (tasks s) \<and> depth (tasks s ! p) = 0 \<and>
             stage (tasks s ! p) = WaitChildren \<and> p \<notin> set (released s)"
  shows "core_ok (processUrl env par d s url)"
  using assms gate_ok_processUrl [of s env par d url]
  by (simp add: core_ok_def family_ok_processUrl released_ok_processUrl)

lemma core_ok_seeds:
  assumes "core_ok s"
  shows "core_ok (foldl (processUrl env None 0) s urls)"
  using assms
  by (induction urls arbitrary: s) (simp_all add: core_ok_processUrl)

lemma core_ok_children:
  assumes "core_ok s" and "p < length (tasks s)" and "depth (tasks s ! p) = 0"
    and "stage (tasks s ! p) = WaitChildren" and "p \<notin> set (released s)"
  shows "core_ok (foldl (processUrl env (Some p) 1) s urls)"
  using assms
proof (induction urls arbitrary: s)
  case Nil
  then show ?case by simp
next
  case (Cons u urls)
  let ?s' = "processUrl env (Some p) 1 s u"
  have "core_ok ?s'"
    using Cons.prems by (intro core_ok_processUrl) simp_all
  moreover have "p < length (tasks ?s')" "depth (tasks ?s' ! p) = 0"
    "stage (tasks ?s' ! p) = WaitChildren" "p \<notin> set (released ?s')"
    using Cons.prems by (simp_all add: processUrl_new_task processUrl_old_tasks processUrl_frame)
  ultimately show ?case
    using Cons.IH [of ?s'] by simp
qed

lemma core_ok_new_session: "core_ok new_session"
  by (simp add: core_ok_def queue_ok_def slots_ok_def family_ok_def released_ok_def
      new_session_def new_semaphore_def MAX_CONCURRENT_def)

lemma core_ok_inspectQuestion: "core_ok (inspectQuestion env seedUrls)"
  by (simp add: inspectQuestion_def core_ok_seeds core_ok_new_session)

text \<open>fields the invariant does not read\<close>

lemma core_ok_other_fields [simp]:
  "core_ok (s\<lparr>effects := e\<rparr>) = core_ok s"
  "core_ok (s\<lparr>session_pageCount := n\<rparr>) = core_ok s"
  "core_ok (s\<lparr>stopCalls := k\<rparr>) = core_ok s"
  "core_ok (s\<lparr>aborted := a\<rparr>) = core_ok s"
  by (simp_all add: core_ok_def queue_ok_def slots_ok_def family_ok_def released_ok_def at_stage_def
      cong: option.case_cong)

lemma core_ok_shouldAbort:
  assumes "shouldAbort env s = (b, s')"
  shows "core_ok s' = core_ok s"
  using assms by (auto simp: shouldAbort_def split: if_splits)

lemma core_ok_finish:
  assumes ok: "core_ok s" and lt: "tid < length (tasks s)" and h: "holds_slot (tasks s ! tid)"
    and why: "stage (tasks s ! tid) \<noteq> WaitChildren \<or> children_done tid s"
  shows "core_ok (finish tid s)"
proof -
  from ok have q: "queue_ok s" and sl: "slots_ok s" and f: "family_ok s" and r: "released_ok s"
    by (simp_all add: core_ok_def)
  from h have nq: "stage (tasks s ! tid) \<noteq> Queued" by (auto simp: holds_slot_def)
  from h why have w: "before_fanout (stage (tasks s ! tid)) \<or> children_done tid s"
    by (auto simp: holds_slot_def before_fanout_def)
  from gate_ok_finish [OF q sl lt h] family_ok_finish [OF f q lt w nq] released_ok_finish [OF r q lt]
  show ?thesis by (simp add: core_ok_def)
qed

lemma core_ok_advance:
  assumes ok: "core_ok s" and at: "at_stage tid st s"
    and st: "st = Ready \<or> st = Delaying \<or> st = Fetching"
    and st': "st' = Delaying \<or> st' = Fetching \<or> st' = WaitChildren"
  shows "core_ok (set_stage tid st' s)"
proof -
  from ok have q: "queue_ok s" and sl: "slots_ok s" and f: "family_ok s" and r: "released_ok s"
    by (simp_all add: core_ok_def)
  from at have lt: "tid < length (tasks s)" and s: "stage (tasks s ! tid) = st"
    by (simp_all add: at_stage_def)
  from st have nq: "st \<noteq> Queued" by auto
  have 1: "queue_ok (set_stage tid st' s)"
    using st' by (intro queue_ok_set_stage [OF q queue_ok_not_queued [OF q at nq]]) auto
  have 2: "slots_ok (set_stage tid st' s)"
    using st st' by (intro slots_ok_keep_holder [OF sl at, of "[]" 0 None]) (auto simp: holds_slot_def)
  have 3: "family_ok (set_stage tid st' s)"
    using st st' s by (intro family_ok_set_stage [OF f lt]) (auto simp: before_fanout_def)
  have 4: "released_ok (set_stage tid st' s)"
    using st s by (intro released_ok_set_stage [OF r lt]) auto
  from 1 2 3 4 show ?thesis by (simp add: core_ok_def)
qed

lemma core_ok_fanout:
  assumes ok: "core_ok s" and at: "at_stage tid Fetching s" and d: "depth (tasks s ! tid) = 0"
  shows "core_ok (set_stage tid WaitChildren (foldl (processUrl env (Some tid) 1) s urls))"
proof -
  from at have lt: "tid < length (tasks s)" and st: "stage (tasks s ! tid) = Fetching"
    by (simp_all add: at_stage_def)
  let ?s1 = "set_stage tid WaitChildren s"
  have ok1: "core_ok ?s1"
    using core_ok_advance [OF ok at] by simp
  from ok have "released_ok s" by (simp add: core_ok_def)
  with lt st have nr: "tid \<notin> set (released s)"
    by (auto simp: released_ok_def at_stage_def)
  have "core_ok (foldl (processUrl env (Some tid) 1) ?s1 urls)"
    using lt d nr by (intro core_ok_children [OF ok1]) (simp_all add: set_stage_nth)
  then show ?thesis
    by (simp add: foldl_processUrl_set_stage [OF lt])
qed

lemma core_ok_after_acquire:
  assumes "core_ok s" and "at_stage tid Ready s"
  shows "core_ok (after_acquire env tid s)"
proof -
  obtain b s1 where sa: "shouldAbort env s = (b, s1)" by (cases "shouldAbort env s")
  note fr = shouldAbort_frame [OF sa]
  from assms core_ok_shouldAbort [OF sa] fr have ok1: "core_ok s1" and at1: "at_stage tid Ready s1"
    by (simp_all add: at_stage_def)
  show ?thesis
  proof (cases b)
    case True
    with sa have "after_acquire env tid s = finish tid s1" by (simp add: after_acquire_def)
    moreover have "core_ok (finish tid s1)"
      using at1 by (intro core_ok_finish [OF ok1]) (auto simp: at_stage_def holds_slot_def)
    ultimately show ?thesis by simp
  next
    case False
    with sa have "after_acquire env tid s = set_stage tid Delaying s1" by (simp add: after_acquire_def)
    with core_ok_advance [OF ok1 at1, of Delaying] show ?thesis by simp
  qed
qed

lemma core_ok_after_delay:
  assumes "core_ok s" and "at_stage tid Delaying s"
  shows "core_ok (after_delay env tid s)"
proof -
  obtain b s1 where sa: "shouldAbort env s = (b, s1)" by (cases "shouldAbort env s")
  note fr = shouldAbort_frame [OF sa]
  from assms core_ok_shouldAbort [OF sa] fr have ok1: "core_ok s1" and at1: "at_stage tid Delaying s1"
    by (simp_all add: at_stage_def)
  show ?thesis
  proof (cases b)
    case True
    with sa have "after_delay env tid s = finish tid s1" by (simp add: after_delay_def)
    moreover have "core_ok (finish tid s1)"
      using at1 by (intro core_ok_finish [OF ok1]) (auto simp: at_stage_def holds_slot_def)
    ultimately show ?thesis by simp
  next
    case False
    let ?s2 = "s1\<lparr>effects := effects s1 @ [Fetch (task_url (tasks s1 ! tid))]\<rparr>"
    from False sa have "after_delay env tid s = set_stage tid Fetching ?s2" by (simp add: after_delay_def)
    moreover have "core_ok (set_stage tid Fetching ?s2)"
      using ok1 at1 by (intro core_ok_advance [of _ _ Delaying]) (simp_all add: at_stage_def)
    ultimately show ?thesis by simp
  qed
qed

lemma core_ok_after_inspect:
  assumes ok: "core_ok s" and at: "at_stage tid Fetching s"
  shows "core_ok (after_inspect env tid result s)"
proof (cases result)
  case None
  then have "after_inspect env tid result s = finish tid s" by (simp add: after_inspect_def)
  moreover have "core_ok (finish tid s)"
    using at by (intro core_ok_finish [OF ok]) (auto simp: at_stage_def holds_slot_def)
  ultimately show ?thesis by simp
next
  case (Some pg)
  obtain b s1 where sa: "shouldAbort env s = (b, s1)" by (cases "shouldAbort env s")
  note fr = shouldAbort_frame [OF sa]
  from ok at core_ok_shouldAbort [OF sa] fr have ok1: "core_ok s1" and at1: "at_stage tid Fetching s1"
    by (simp_all add: at_stage_def)
  show ?thesis
  proof (cases b)
    case True
    with sa Some have "after_inspect env tid result s = finish tid s1" by (simp add: after_inspect_def)
    moreover have "core_ok (finish tid s1)"
      using at1 by (intro core_ok_finish [OF ok1]) (auto simp: at_stage_def holds_slot_def)
    ultimately show ?thesis by simp
  next
    case False
    let ?s2 = "s1\<lparr>session_pageCount := session_pageCount s1 + 1,
                   effects := effects s1 @ [Progress (session_pageCount s1 + 1)]\<rparr>"
    have ok2: "core_ok ?s2" and at2: "at_stage tid Fetching ?s2"
      using ok1 at1 by (simp_all add: at_stage_def)
    show ?thesis
    proof (cases "depth (tasks s1 ! tid) = 0 \<and> links pg \<noteq> []")
      case True
      with False sa Some have "after_inspect env tid result s =
          set_stage tid WaitChildren (foldl (processUrl env (Some tid) 1) ?s2
            (select_links env (visitedUrls ?s2) (links pg) []))"
        by (simp add: after_inspect_def Let_def)
      moreover have "core_ok (set_stage tid WaitChildren (foldl (processUrl env (Some tid) 1) ?s2
            (select_links env (visitedUrls ?s2) (links pg) [])))"
        using True by (intro core_ok_fanout [OF ok2 at2]) simp
      ultimately show ?thesis by simp
    next
      case nf: False
      with False sa Some have "after_inspect env tid result s = finish tid ?s2"
        by (auto simp: after_inspect_def Let_def)
      moreover have "core_ok (finish tid ?s2)"
        using at2 by (intro core_ok_finish [OF ok2]) (auto simp: at_stage_def holds_slot_def)
      ultimately show ?thesis by simp
    qed
  qed
qed

lemma core_ok_step:
  assumes "core_ok s" and "step env s e = Some s'"
  shows "core_ok s'"
proof (cases e)
  case (Resume tid)
  with assms show ?thesis by (auto simp: core_ok_after_acquire split: if_splits)
next
  case (DelayElapsed tid)
  with assms show ?thesis by (auto simp: core_ok_after_delay split: if_splits)
next
  case (InspectDone tid result)
  with assms show ?thesis by (auto simp: core_ok_after_inspect split: if_splits)
next
  case (ChildrenDone tid)
  with assms have at: "at_stage tid WaitChildren s" and cd: "children_done tid s" and s': "s' = finish tid s"
    by (auto split: if_splits)
  have "core_ok (finish tid s)"
    using at cd by (intro core_ok_finish [OF assms(1)]) (auto simp: at_stage_def holds_slot_def)
  with s' show ?thesis by simp
qed

lemma core_ok_run:
  assumes "core_ok s" and "run env s evs = Some s'"
  shows "core_ok s'"
  using assms
proof (induction evs arbitrary: s)
  case Nil
  then show ?case by simp
next
  case (Cons e evs)
  then obtain s1 where "step env s e = Some s1" and "run env s1 evs = Some s'"
    by (auto split: option.splits)
  with Cons.IH [of s1] core_ok_step [OF Cons.prems(1)] show ?case by simp
qed

lemma core_ok_reachable:
  "run env (inspectQuestion env seedUrls) evs = Some s \<Longrightarrow> core_ok s"
  using core_ok_run [OF core_ok_inspectQuestion] .

lemma fetched_append [simp]: "fetched (xs @ ys) = fetched xs @ fetched ys"
  by (induction xs rule: fetched.induct) simp_all

lemma pending_urls_set_stage:
  assumes "tid < length (tasks s)"
  obtains PA PB where
    "map task_url (filter pending (tasks s)) =
       PA @ (if pending (tasks s ! tid) then [task_url (tasks s ! tid)] else []) @ PB"
    "map task_url (filter pending (tasks (set_stage tid st s))) =
       PA @ (if pending ((tasks s ! tid)\<lparr>stage := st\<rparr>) then [task_url (tasks s ! tid)] else []) @ PB"
proof -
  from assms obtain A B where s: "tasks s = A @ (tasks s ! tid) # B"
    and s': "tasks (set_stage tid st s) = A @ (tasks s ! tid)\<lparr>stage := st\<rparr> # B"
    by (rule task_split)
  show ?thesis
  proof
    show "map task_url (filter pending (tasks s)) =
       map task_url (filter pending A) @ (if pending (tasks s ! tid) then [task_url (tasks s ! tid)] else []) @
       map task_url (filter pending B)"
      by (subst s) simp
    show "map task_url (filter pending (tasks (set_stage tid st s))) =
       map task_url (filter pending A) @
       (if pending ((tasks s ! tid)\<lparr>stage := st\<rparr>) then [task_url (tasks s ! tid)] else []) @
       map task_url (filter pending B)"
      by (subst s') simp
  qed
qed

lemma claims_ok_sub:
  assumes "claims_ok env s" and "visitedUrls s' = visitedUrls s"
    and "claimed_urls s = F @ PA @ X @ PB" and "claimed_urls s' = F @ PA @ PB"
  shows "claims_ok env s'"
proof -
  from assms(1,3) have "distinct (map (normalize env) (F @ PA @ X @ PB))"
    and "normalize env ` set (F @ PA @ X @ PB) \<subseteq> visitedUrls s"
    by (simp_all add: claims_ok_def)
  then have "distinct (map (normalize env) (F @ PA @ PB))"
    and "normalize env ` set (F @ PA @ PB) \<subseteq> visitedUrls s"
    by auto
  with assms(2,4) show ?thesis by (simp add: claims_ok_def)
qed

lemma claims_ok_moved:
  assumes "claims_ok env s" and "visitedUrls s' = visitedUrls s"
    and "claimed_urls s = F @ PA @ [u] @ PB" and "claimed_urls s' = (F @ [u]) @ PA @ PB"
  shows "claims_ok env s'"
proof -
  from assms(1,3) have "distinct (map (normalize env) (F @ PA @ [u] @ PB))"
    and "normalize env ` set (F @ PA @ [u] @ PB) \<subseteq> visitedUrls s"
    by (simp_all add: claims_ok_def)
  then have "distinct (map (normalize env) ((F @ [u]) @ PA @ PB))"
    and "normalize env ` set ((F @ [u]) @ PA @ PB) \<subseteq> visitedUrls s"
    by auto
  with assms(2,4) show ?thesis by (simp add: claims_ok_def)
qed

text \<open>a stage change that keeps a call pending, or keeps it not pending\<close>

lemma claims_ok_same:
  assumes ok: "claims_ok env s" and lt: "tid < length (tasks s)"
    and same: "pending ((tasks s ! tid)\<lparr>stage := st\<rparr>) = pending (tasks s ! tid)"
  shows "claims_ok env (set_stage tid st s)"
proof -
  from lt obtain PA PB where
    a: "map task_url (filter pending (tasks s)) =
       PA @ (if pending (tasks s ! tid) then [task_url (tasks s ! tid)] else []) @ PB"
    and b: "map task_url (filter pending (tasks (set_stage tid st s))) =
       PA @ (if pending ((tasks s ! tid)\<lparr>stage := st\<rparr>) then [task_url (tasks s ! tid)] else []) @ PB"
    by (rule pending_urls_set_stage)
  from a b same have "claimed_urls (set_stage tid st s) = claimed_urls s"
    by (simp add: claimed_urls_def)
  with ok show ?thesis by (simp add: claims_ok_def)
qed

text \<open>a call that stops being pending without a fetch\<close>

lemma claims_ok_drop:
  assumes ok: "claims_ok env s" and lt: "tid < length (tasks s)" and np: "\<not> pending ((tasks s ! tid)\<lparr>stage := st\<rparr>)"
  shows "claims_ok env (set_stage tid st s)"
proof -
  from lt obtain PA PB where
    a: "map task_url (filter pending (tasks s)) =
       PA @ (if pending (tasks s ! tid) then [task_url (tasks s ! tid)] else []) @ PB"
    and b: "map task_url (filter pending (tasks (set_stage tid st s))) =
       PA @ (if pending ((tasks s ! tid)\<lparr>stage := st\<rparr>) then [task_url (tasks s ! tid)] else []) @ PB"
    by (rule pending_urls_set_stage)
  let ?X = "if pending (tasks s ! tid) then [task_url (tasks s ! tid)] else []"
  have 1: "claimed_urls s = fetched (effects s) @ PA @ ?X @ PB"
    using a by (simp add: claimed_urls_def)
  have 2: "claimed_urls (set_stage tid st s) = fetched (effects s) @ PA @ PB"
    using b np by (simp add: claimed_urls_def)
  show ?thesis
    by (rule claims_ok_sub [OF ok _ 1 2]) simp
qed

text \<open>the delay is over: the URL moves from the pending calls to the fetched URLs\<close>

lemma claims_ok_fetch:
  assumes ok: "claims_ok env s" and lt: "tid < length (tasks s)" and p: "pending (tasks s ! tid)"
  shows "claims_ok env (set_stage tid Fetching (s\<lparr>effects := effects s @ [Fetch (task_url (tasks s ! tid))]\<rparr>))"
proof -
  let ?u = "task_url (tasks s ! tid)"
  let ?s1 = "s\<lparr>effects := effects s @ [Fetch ?u]\<rparr>"
  from lt have "tid < length (tasks ?s1)" by simp
  then obtain PA PB where
    a: "map task_url (filter pending (tasks ?s1)) =
       PA @ (if pending (tasks ?s1 ! tid) then [task_url (tasks ?s1 ! tid)] else []) @ PB"
    and b: "map task_url (filter pending (tasks (set_stage tid Fetching ?s1))) =
       PA @ (if pending ((tasks ?s1 ! tid)\<lparr>stage := Fetching\<rparr>) then [task_url (tasks ?s1 ! tid)] else []) @ PB"
    by (rule pending_urls_set_stage)
  have 1: "claimed_urls s = fetched (effects s) @ PA @ [?u] @ PB"
    using a p by (simp add: claimed_urls_def)
  have 2: "claimed_urls (set_stage tid Fetching ?s1) = (fetched (effects s) @ [?u]) @ PA @ PB"
    using b by (simp add: claimed_urls_def pending_def)
  show ?thesis
    by (rule claims_ok_moved [OF ok _ 1 2]) simp
qed

lemma claims_ok_other_fields [simp]:
  "claims_ok env (s\<lparr>session_pageCount := n\<rparr>) = claims_ok env s"
  "claims_ok env (s\<lparr>stopCalls := k\<rparr>) = claims_ok env s"
  "claims_ok env (s\<lparr>aborted := a\<rparr>) = claims_ok env s"
  "claims_ok env (s\<lparr>semaphore := sm\<rparr>) = claims_ok env s"
  "claims_ok env (s\<lparr>released := r\<rparr>) = claims_ok env s"
  "claims_ok env (s\<lparr>effects := effects s @ [Progress n]\<rparr>) = claims_ok env s"
  by (simp_all add: claims_ok_def claimed_urls_def)

lemma claims_ok_shouldAbort:
  assumes "shouldAbort env s = (b, s')"
  shows "claims_ok env s' = claims_ok env s"
  using assms by (auto simp: shouldAbort_def split: if_splits)

lemma claims_ok_new_claim:
  assumes ok: "claims_ok env s" and nv: "normalize env url \<notin> visitedUrls s"
    and c: "claimed_urls s' = claimed_urls s @ [url]"
    and v: "visitedUrls s' = insert (normalize env url) (visitedUrls s)"
  shows "claims_ok env s'"
proof -
  from ok have d: "distinct (map (normalize env) (claimed_urls s))"
    and sub: "normalize env ` set (claimed_urls s) \<subseteq> visitedUrls s"
    by (simp_all add: claims_ok_def)
  from sub nv have "normalize env url \<notin> normalize env ` set (claimed_urls s)" by blast
  with d have "distinct (map (normalize env) (claimed_urls s @ [url]))" by simp
  moreover from sub have "normalize env ` set (claimed_urls s @ [url]) \<subseteq> insert (normalize env url) (visitedUrls s)"
    by auto
  ultimately show ?thesis
    by (simp add: claims_ok_def c v)
qed

lemma claims_ok_processUrl:
  assumes ok: "claims_ok env s"
  shows "claims_ok env (processUrl env par d s url)"
proof (cases rule: processUrl_cases [of env s url par d])
  case (skipped b s1)
  note fr = shouldAbort_frame [OF skipped(1)]
  show ?thesis
    unfolding skipped(3) using ok fr
    by (simp add: claims_ok_def claimed_urls_def pending_def)
next
  case (granted s1)
  note fr = shouldAbort_frame [OF granted(1)]
  show ?thesis
  proof (rule claims_ok_new_claim [OF ok granted(2)])
    show "claimed_urls (processUrl env par d s url) = claimed_urls s @ [url]"
      unfolding granted(4) using fr by (simp add: claimed_urls_def pending_def)
    show "visitedUrls (processUrl env par d s url) = insert (normalize env url) (visitedUrls s)"
      unfolding granted(4) by simp
  qed
next
  case (queued s1)
  note fr = shouldAbort_frame [OF queued(1)]
  show ?thesis
  proof (rule claims_ok_new_claim [OF ok queued(2)])
    show "claimed_urls (processUrl env par d s url) = claimed_urls s @ [url]"
      unfolding queued(4) using fr by (simp add: claimed_urls_def pending_def)
    show "visitedUrls (processUrl env par d s url) = insert (normalize env url) (visitedUrls s)"
      unfolding queued(4) by simp
  qed
qed

lemma claims_ok_foldl:
  "claims_ok env s \<Longrightarrow> claims_ok env (foldl (processUrl env par d) s urls)"
  by (induction urls arbitrary: s) (simp_all add: claims_ok_processUrl)

lemma claims_ok_finish:
  assumes ok: "claims_ok env s" and q: "queue_ok s" and lt: "tid < length (tasks s)"
  shows "claims_ok env (finish tid s)"
proof (cases rule: finish_cases [of s tid])
  case plain
  let ?s1 = "s\<lparr>semaphore := (semaphore s)\<lparr>current := current (semaphore s) - 1\<rparr>, released := released s @ [tid]\<rparr>"
  have a: "claims_ok env ?s1" using ok by (simp add: claims_ok_def claimed_urls_def)
  have "claims_ok env (set_stage tid Done ?s1)"
    by (rule claims_ok_drop [OF a]) (use lt in \<open>simp_all add: pending_def\<close>)
  with plain show ?thesis by simp
next
  case (wake w ws)
  let ?s1 = "s\<lparr>semaphore := (semaphore s)\<lparr>queue := ws\<rparr>, released := released s @ [tid]\<rparr>"
  from q wake have w: "w < length (tasks s)" "stage (tasks s ! w) = Queued"
    by (auto simp: queue_ok_def at_stage_def)
  have a: "claims_ok env ?s1" using ok by (simp add: claims_ok_def claimed_urls_def)
  have b: "claims_ok env (set_stage w Ready ?s1)"
    by (rule claims_ok_same [OF a]) (use w in \<open>simp_all add: pending_def\<close>)
  have "claims_ok env (set_stage tid Done (set_stage w Ready ?s1))"
    by (rule claims_ok_drop [OF b]) (use lt in \<open>simp_all add: pending_def\<close>)
  with wake show ?thesis by simp
qed

lemma all_ok_shouldAbort:
  assumes "shouldAbort env s = (b, s')"
  shows "all_ok env s' = all_ok env s"
  using assms core_ok_shouldAbort [OF assms] claims_ok_shouldAbort [OF assms]
  by (simp add: all_ok_def)

lemma claims_ok_after_acquire:
  assumes "all_ok env s" and "at_stage tid Ready s"
  shows "claims_ok env (after_acquire env tid s)"
proof -
  obtain b s1 where sa: "shouldAbort env s = (b, s1)" by (cases "shouldAbort env s")
  note fr = shouldAbort_frame [OF sa]
  from assms all_ok_shouldAbort [OF sa] fr have ok1: "claims_ok env s1" "queue_ok s1"
    and lt: "tid < length (tasks s1)" and st: "stage (tasks s1 ! tid) = Ready"
    by (simp_all add: at_stage_def all_ok_def core_ok_def)
  show ?thesis
  proof (cases b)
    case True
    with sa have "after_acquire env tid s = finish tid s1" by (simp add: after_acquire_def)
    with claims_ok_finish [OF ok1 lt] show ?thesis by simp
  next
    case False
    with sa have "after_acquire env tid s = set_stage tid Delaying s1" by (simp add: after_acquire_def)
    moreover have "claims_ok env (set_stage tid Delaying s1)"
      by (rule claims_ok_same [OF ok1(1) lt]) (use st in \<open>simp add: pending_def\<close>)
    ultimately show ?thesis by simp
  qed
qed

lemma claims_ok_after_delay:
  assumes "all_ok env s" and "at_stage tid Delaying s"
  shows "claims_ok env (after_delay env tid s)"
proof -
  obtain b s1 where sa: "shouldAbort env s = (b, s1)" by (cases "shouldAbort env s")
  note fr = shouldAbort_frame [OF sa]
  from assms all_ok_shouldAbort [OF sa] fr have ok1: "claims_ok env s1" "queue_ok s1"
    and lt: "tid < length (tasks s1)" and st: "stage (tasks s1 ! tid) = Delaying"
    by (simp_all add: at_stage_def all_ok_def core_ok_def)
  show ?thesis
  proof (cases b)
    case True
    with sa have "after_delay env tid s = finish tid s1" by (simp add: after_delay_def)
    with claims_ok_finish [OF ok1 lt] show ?thesis by simp
  next
    case False
    with sa have "after_delay env tid s =
        set_stage tid Fetching (s1\<lparr>effects := effects s1 @ [Fetch (task_url (tasks s1 ! tid))]\<rparr>)"
      by (simp add: after_delay_def)
    moreover have "claims_ok env (set_stage tid Fetching (s1\<lparr>effects := effects s1 @ [Fetch (task_url (tasks s1 ! tid))]\<rparr>))"
      by (rule claims_ok_fetch [OF ok1(1) lt]) (use st in \<open>simp add: pending_def\<close>)
    ultimately show ?thesis by simp
  qed
qed

lemma claims_ok_after_inspect:
  assumes "all_ok env s" and "at_stage tid Fetching s"
  shows "claims_ok env (after_inspect env tid result s)"
proof (cases result)
  case None
  from assms have "claims_ok env s" "queue_ok s" "tid < length (tasks s)"
    by (simp_all add: at_stage_def all_ok_def core_ok_def)
  with None claims_ok_finish [of env s tid] show ?thesis by (simp add: after_inspect_def)
next
  case (Some pg)
  obtain b s1 where sa: "shouldAbort env s = (b, s1)" by (cases "shouldAbort env s")
  note fr = shouldAbort_frame [OF sa]
  from assms all_ok_shouldAbort [OF sa] fr have ok1: "claims_ok env s1" "queue_ok s1"
    and lt: "tid < length (tasks s1)" and st: "stage (tasks s1 ! tid) = Fetching"
    by (simp_all add: at_stage_def all_ok_def core_ok_def)
  show ?thesis
  proof (cases b)
    case True
    with sa Some have "after_inspect env tid result s = finish tid s1" by (simp add: after_inspect_def)
    with claims_ok_finish [OF ok1 lt] show ?thesis by simp
  next
    case False
    let ?s2 = "s1\<lparr>session_pageCount := session_pageCount s1 + 1,
                   effects := effects s1 @ [Progress (session_pageCount s1 + 1)]\<rparr>"
    have ok2: "claims_ok env ?s2" "queue_ok ?s2" and lt2: "tid < length (tasks ?s2)"
      using ok1 lt by (simp_all add: claims_ok_def claimed_urls_def queue_ok_def at_stage_def)
    show ?thesis
    proof (cases "depth (tasks s1 ! tid) = 0 \<and> links pg \<noteq> []")
      case True
      let ?urls = "select_links env (visitedUrls ?s2) (links pg) []"
      from True False sa Some have "after_inspect env tid result s =
          set_stage tid WaitChildren (foldl (processUrl env (Some tid) 1) ?s2 ?urls)"
        by (simp add: after_inspect_def Let_def)
      also have "\<dots> = foldl (processUrl env (Some tid) 1) (set_stage tid WaitChildren ?s2) ?urls"
        using lt2 by (simp add: foldl_processUrl_set_stage)
      finally have eq: "after_inspect env tid result s =
          foldl (processUrl env (Some tid) 1) (set_stage tid WaitChildren ?s2) ?urls" .
      have "claims_ok env (set_stage tid WaitChildren ?s2)"
        by (rule claims_ok_same [OF ok2(1) lt2]) (use st in \<open>simp add: pending_def\<close>)
      then show ?thesis
        unfolding eq by (rule claims_ok_foldl)
    next
      case nf: False
      with False sa Some have "after_inspect env tid result s = finish tid ?s2"
        by (auto simp: after_inspect_def Let_def)
      with claims_ok_finish [OF ok2 lt2] show ?thesis by simp
    qed
  qed
qed

lemma all_ok_step:
  assumes "all_ok env s" and "step env s e = Some s'"
  shows "all_ok env s'"
proof -
  from assms have c: "core_ok s'" using core_ok_step by (auto simp: all_ok_def)
  have "claims_ok env s'"
  proof (cases e)
    case (Resume tid)
    with assms show ?thesis by (auto simp: claims_ok_after_acquire split: if_splits)
  next
    case (DelayElapsed tid)
    with assms show ?thesis by (auto simp: claims_ok_after_delay split: if_splits)
  next
    case (InspectDone tid result)
    with assms show ?thesis by (auto simp: claims_ok_after_inspect split: if_splits)
  next
    case (ChildrenDone tid)
    with assms have "at_stage tid WaitChildren s" and s': "s' = finish tid s"
      by (auto split: if_splits)
    with assms(1) claims_ok_finish [of env s tid] show ?thesis
      by (simp add: all_ok_def core_ok_def at_stage_def)
  qed
  with c show ?thesis by (simp add: all_ok_def)
qed

lemma all_ok_run:
  assumes "all_ok env s" and "run env s evs = Some s'"
  shows "all_ok env s'"
  using assms
proof (induction evs arbitrary: s)
  case Nil
  then show ?case by simp
next
  case (Cons e evs)
  then obtain s1 where "step env s e = Some s1" and "run env s1 evs = Some s'"
    by (auto split: option.splits)
  with Cons.IH [of s1] all_ok_step [OF Cons.prems(1)] show ?case by simp
qed

lemma all_ok_inspectQuestion: "all_ok env (inspectQuestion env seedUrls)"
proof -
  have "claims_ok env new_session"
    by (simp add: claims_ok_def claimed_urls_def new_session_def)
  then have "claims_ok env (inspectQuestion env seedUrls)"
    unfolding inspectQuestion_def by (rule claims_ok_foldl)
  with core_ok_inspectQuestion show ?thesis by (simp add: all_ok_def)
qed

lemma all_ok_reachable:
  "run env (inspectQuestion env seedUrls) evs = Some s \<Longrightarrow> all_ok env s"
  using all_ok_run [OF all_ok_inspectQuestion] .

section \<open>The Crawl Orchestrator: a parent holds its slot while its children run\<close>

lemma one_seed_inspected_value:
  "map_option (\<lambda>s. (length (tasks s), stage (tasks s ! 0), stage (tasks s ! 1), parent (tasks s ! 1),
                    effects s, session_pageCount s))
     one_seed_inspected =
   Some (3, WaitChildren, Ready, Some 0, [Fetch ''http://a.io/'', Progress 1], 1)"
  by code_simp

lemma two_equal_seeds_value0:
 "map_option (\<lambda>s. (fetched (effects s), map stage (tasks s), visitedUrls s, aborted s, stopCalls s))
      two_equal_seeds =
      Some ([''http://a.io/''], [Fetching, Done], {''http://a.io''}, False, 4)"
    by code_simp

lemma one_seed_inspected_Some:
  obtains s where "one_seed_inspected = Some s" and "length (tasks s) = 3"
    and "stage (tasks s ! 0) = WaitChildren" and "stage (tasks s ! 1) = Ready"
    and "parent (tasks s ! 1) = Some 0" and "effects s = [Fetch ''http://a.io/'', Progress 1]"
    and "session_pageCount s = 1"
  using one_seed_inspected_value by auto

text \<open>
  Claim C10. In every state a session can reach, a call of \<open>processUrl\<close> that was started
  by a depth-0 call and has not returned has depth 1, and its parent awaits its expansion
  tasks, holds a slot and has not called \<open>release\<close>; the child itself waits in the queue
  of the same semaphore or holds one of its slots; the semaphore has capacity 3, and its
  counter, the number of calls that hold a slot, is at most 3.
\<close>

theorem parent_holds_slot_while_children_run:
  assumes "run env (inspectQuestion env seedUrls) evs = Some s"
    and "c < length (tasks s)" and "parent (tasks s ! c) = Some p" and "stage (tasks s ! c) \<noteq> Done"
  shows "p < length (tasks s) \<and> depth (tasks s ! p) = 0 \<and> depth (tasks s ! c) = 1 \<and>
         stage (tasks s ! p) = WaitChildren \<and> holds_slot (tasks s ! p) \<and> p \<notin> set (released s) \<and>
         (if stage (tasks s ! c) = Queued then c \<in> set (queue (semaphore s)) else holds_slot (tasks s ! c)) \<and>
         semaphore.max (semaphore s) = 3 \<and>
         current (semaphore s) = int (length (filter holds_slot (tasks s))) \<and>
         current (semaphore s) \<le> 3"
proof -
  from all_ok_reachable [OF assms(1)] have f: "family_ok s" and q: "queue_ok s" and sl: "slots_ok s"
    by (simp_all add: all_ok_def core_ok_def)
  from f assms(2,3,4) have "p < length (tasks s) \<and> depth (tasks s ! p) = 0 \<and> depth (tasks s ! c) = 1 \<and>
      stage (tasks s ! p) = WaitChildren \<and> p \<notin> set (released s)"
    by (auto simp: family_ok_def)
  moreover have "if stage (tasks s ! c) = Queued then c \<in> set (queue (semaphore s)) else holds_slot (tasks s ! c)"
    using queue_ok_elims(3) [OF q assms(2)] assms(4)
    by (cases "stage (tasks s ! c)") (simp_all add: holds_slot_def)
  moreover from sl have "semaphore.max (semaphore s) = 3 \<and>
      current (semaphore s) = int (length (filter holds_slot (tasks s))) \<and> current (semaphore s) \<le> 3"
    by (simp add: slots_ok_def MAX_CONCURRENT_def)
  ultimately show ?thesis by (simp add: holds_slot_def)
qed

theorem parent_holds_slot_while_children_run_witness:
  "\<exists>s. run example_env (inspectQuestion example_env [''http://a.io/''])
          [Resume 0, DelayElapsed 0,
           InspectDone 0 (Some (example_page [''http://a.io/b'', ''http://a.io/b/'']))] = Some s \<and>
       parent (tasks s ! 1) = Some 0 \<and> stage (tasks s ! 1) = Ready \<and>
       stage (tasks s ! 0) = WaitChildren \<and> 0 \<notin> set (released s) \<and> current (semaphore s) \<le> 3"
proof -
  obtain s where s: "one_seed_inspected = Some s" and len: "length (tasks s) = 3"
    and st: "stage (tasks s ! 0) = WaitChildren" "stage (tasks s ! 1) = Ready"
    and pa: "parent (tasks s ! 1) = Some 0"
    by (rule one_seed_inspected_Some)
  have r: "run example_env (inspectQuestion example_env [''http://a.io/''])
          [Resume 0, DelayElapsed 0,
           InspectDone 0 (Some (example_page [''http://a.io/b'', ''http://a.io/b/'']))] = Some s"
    using s by (simp add: one_seed_inspected_def)
  from parent_holds_slot_while_children_run [OF r, of 1 0] len pa st r show ?thesis
    by auto
qed

section \<open>The Crawl Orchestrator: no normalized URL is fetched twice\<close>

lemma two_equal_seeds_value:
  obtains s where "two_equal_seeds = Some s" and "fetched (effects s) = [''http://a.io/'']"
    and "map stage (tasks s) = [Fetching, Done]" and "visitedUrls s = {''http://a.io''}"
    and "\<not> aborted s" and "stopCalls s = 4"
proof -
  have "\<exists>s. two_equal_seeds = Some s \<and> fetched (effects s) = [''http://a.io/''] \<and>
    map stage (tasks s) = [Fetching, Done] \<and> visitedUrls s = {''http://a.io''} \<and>
    \<not> aborted s \<and> stopCalls s = 4"
    using two_equal_seeds_value0 unfolding map_option_eq_Some
    by (simp only: prod.inject simp_thms)
  then obtain s where "two_equal_seeds = Some s" "fetched (effects s) = [''http://a.io/'']"
    "map stage (tasks s) = [Fetching, Done]" "visitedUrls s = {''http://a.io''}"
    "\<not> aborted s" "stopCalls s = 4"
    by (elim exE conjE)
  then show ?thesis by (rule that)
qed

text \<open>
  Claim C5. In every state a session can reach, the URLs fetched so far have pairwise
  different normalized forms, all of them claimed in \<open>visitedUrls\<close>. A call of
  \<open>processUrl\<close> for a URL whose normalized form is claimed returns at once: it fetches
  nothing and leaves the semaphore as it is. A call for an unclaimed URL that is not
  cancelled claims the normalized form in the step in which it starts, before any await,
  and so before its slot is granted and before it fetches.
\<close>

theorem no_normalized_url_fetched_twice:
  assumes "run env (inspectQuestion env seedUrls) evs = Some s"
  shows "distinct (map (normalize env) (fetched (effects s))) \<and>
         normalize env ` set (fetched (effects s)) \<subseteq> visitedUrls s \<and>
         (normalize env url \<in> visitedUrls s \<longrightarrow>
            effects (processUrl env par d s url) = effects s \<and>
            semaphore (processUrl env par d s url) = semaphore s \<and>
            tasks (processUrl env par d s url) =
              tasks s @ [\<lparr>task_url = url, depth = d, parent = par, stage = Done\<rparr>]) \<and>
         (normalize env url \<notin> visitedUrls s \<and> \<not> fst (shouldAbort env s) \<longrightarrow>
            visitedUrls (processUrl env par d s url) = insert (normalize env url) (visitedUrls s) \<and>
            effects (processUrl env par d s url) = effects s)"
proof -
  from all_ok_reachable [OF assms] have "claims_ok env s" by (simp add: all_ok_def)
  then have "distinct (map (normalize env) (fetched (effects s)))"
    and "normalize env ` set (fetched (effects s)) \<subseteq> visitedUrls s"
    by (auto simp: claims_ok_def claimed_urls_def)
  moreover have "effects (processUrl env par d s url) = effects s \<and>
            semaphore (processUrl env par d s url) = semaphore s \<and>
            tasks (processUrl env par d s url) =
              tasks s @ [\<lparr>task_url = url, depth = d, parent = par, stage = Done\<rparr>]"
    if "normalize env url \<in> visitedUrls s"
  proof (cases rule: processUrl_cases [of env s url par d])
    case (skipped b s1)
    with shouldAbort_frame [OF skipped(1)] show ?thesis by simp
  next
    case (granted s1)
    with that show ?thesis by simp
  next
    case (queued s1)
    with that show ?thesis by simp
  qed
  moreover have "visitedUrls (processUrl env par d s url) = insert (normalize env url) (visitedUrls s)"
    if "normalize env url \<notin> visitedUrls s" "\<not> fst (shouldAbort env s)"
  proof (cases rule: processUrl_cases [of env s url par d])
    case (skipped b s1)
    with that show ?thesis by simp
  next
    case (granted s1)
    then show ?thesis by simp
  next
    case (queued s1)
    then show ?thesis by simp
  qed
  ultimately show ?thesis
    by (simp add: processUrl_frame)
qed

theorem no_normalized_url_fetched_twice_witness:
  "\<exists>s. run example_env (inspectQuestion example_env [''http://a.io/'', ''http://a.io''])
          [Resume 0, DelayElapsed 0] = Some s \<and>
       fetched (effects s) = [''http://a.io/''] \<and> map stage (tasks s) = [Fetching, Done] \<and>
       distinct (map (normalize example_env) (fetched (effects s))) \<and>
       effects (processUrl example_env None 0 s ''http://a.io/'') = effects s \<and>
       visitedUrls (processUrl example_env None 0 s ''http://a.io/b/'') =
         insert ''http://a.io/b'' (visitedUrls s)"
proof -
  obtain s where s: "two_equal_seeds = Some s" and f: "fetched (effects s) = [''http://a.io/'']"
    and st: "map stage (tasks s) = [Fetching, Done]" and v: "visitedUrls s = {''http://a.io''}"
    and na: "\<not> aborted s"
    by (rule two_equal_seeds_value)
  have r: "run example_env (inspectQuestion example_env [''http://a.io/'', ''http://a.io''])
          [Resume 0, DelayElapsed 0] = Some s"
    using s by (simp add: two_equal_seeds_def)
  have n1: "normalize example_env ''http://a.io/'' = ''http://a.io''"
    and n2: "normalize example_env ''http://a.io/b/'' = ''http://a.io/b''"
    by (simp_all add: example_env_def)
  have sa: "\<not> fst (shouldAbort example_env s)"
    using na by (simp add: shouldAbort_def example_env_def)
  have in1: "normalize example_env ''http://a.io/'' \<in> visitedUrls s"
    unfolding n1 v by simp
  have out2: "normalize example_env ''http://a.io/b/'' \<notin> visitedUrls s"
    unfolding n2 v by simp
  note a = no_normalized_url_fetched_twice [OF r, of "''http://a.io/''" None 0]
  note b = no_normalized_url_fetched_twice [OF r, of "''http://a.io/b/''" None 0]
  from a have d: "distinct (map (normalize example_env) (fetched (effects s)))" by (rule conjunct1)
  from a have "normalize example_env ''http://a.io/'' \<in> visitedUrls s \<longrightarrow>
      effects (processUrl example_env None 0 s ''http://a.io/'') = effects s \<and>
      semaphore (processUrl example_env None 0 s ''http://a.io/'') = semaphore s \<and>
      tasks (processUrl example_env None 0 s ''http://a.io/'') =
        tasks s @ [\<lparr>task_url = ''http://a.io/'', depth = 0, parent = None, stage = Done\<rparr>]"
    by (elim conjE)
  from mp [OF this in1] have e1: "effects (processUrl example_env None 0 s ''http://a.io/'') = effects s"
    by (rule conjunct1)
  from b have "normalize example_env ''http://a.io/b/'' \<notin> visitedUrls s \<and>
      \<not> fst (shouldAbort example_env s) \<longrightarrow>
      visitedUrls (processUrl example_env None 0 s ''http://a.io/b/'') =
        insert (normalize example_env ''http://a.io/b/'') (visitedUrls s) \<and>
      effects (processUrl example_env None 0 s ''http://a.io/b/'') = effects s"
    by (elim conjE)
  from mp [OF this conjI [OF out2 sa]]
  have e2: "visitedUrls (processUrl example_env None 0 s ''http://a.io/b/'') =
      insert ''http://a.io/b'' (visitedUrls s)"
    unfolding n2 by (rule conjunct1)
  show ?thesis
    by (rule exI [of _ s]) (intro conjI r f st d e1 e2)
qed

section \<open>The Crawl Orchestrator: expansion from depth 0, capped\<close>



text \<open>the children of a call\<close>

lemma child_count_columns:
  assumes "map parent (tasks s') = map parent (tasks s)"
  shows "child_count p s' = child_count p s"
proof -
  have "child_count p s = length (filter (\<lambda>x. x = Some p) (map parent (tasks s)))" for s
    by (simp add: child_count_def filter_map comp_def)
  then have "child_count p s' = length (filter (\<lambda>x. x = Some p) (map parent (tasks s')))"
    and "child_count p s = length (filter (\<lambda>x. x = Some p) (map parent (tasks s)))"
    by blast+
  with assms show ?thesis by (simp only:)
qed



lemma child_count_set_stage [simp]:
  "child_count p (set_stage tid st s) = child_count p s"
  "child_count p (finish tid s) = child_count p s"
  by (rule child_count_columns, simp)+

lemma child_count_other_fields [simp]:
  "child_count p (s\<lparr>effects := e\<rparr>) = child_count p s"
  "child_count p (s\<lparr>session_pageCount := n\<rparr>) = child_count p s"
  by (simp_all add: child_count_def)







text \<open>the budget of a session\<close>

lemma budget_other_fields [simp]:
  "budget (s\<lparr>effects := e\<rparr>) = budget s"
  "budget (s\<lparr>session_pageCount := n\<rparr>) = budget s"
  "budget (s\<lparr>semaphore := m\<rparr>) = budget s"
  "budget (s\<lparr>released := r\<rparr>) = budget s"
  by (simp_all add: budget_def)






















section \<open>The Crawl Orchestrator: the effects of a successful inspection\<close>















end
